theory Spec2Isabelle
  imports Main "HOL-Library.Word"
begin

unbundle bit_operations_syntax

section \<open>Shared vocabulary of the item models (qt-models/models.cpp)\<close>

text \<open>
  Faults of the C++ code are values of the model: a read through a null pointer, a
  \<open>QList::at\<close> outside the list, an integer division by zero and a read past the end
  of a C array.
\<close>

datatype error = NullDereference | IndexOutOfRange | DivisionByZero | ArrayOverrun

text \<open>
  The item data roles are the integers of \<open>Qt::ItemDataRole\<close>; a role argument is any
  \<open>int\<close>.
\<close>

definition DisplayRole :: int where "DisplayRole = 0"
definition DecorationRole :: int where "DecorationRole = 1"
definition EditRole :: int where "EditRole = 2"
definition ToolTipRole :: int where "ToolTipRole = 3"
definition FontRole :: int where "FontRole = 6"
definition TextAlignmentRole :: int where "TextAlignmentRole = 7"
definition BackgroundRole :: int where "BackgroundRole = 8"
definition SizeHintRole :: int where "SizeHintRole = 13"

text \<open>
  A \<open>QModelIndex\<close>: row, column, whether it carries a model pointer, and the internal
  pointer of the tree models (an address of the item store). \<open>isValid\<close> is Qt's
  \<open>(r >= 0) && (c >= 0) && (m != 0)\<close>.
\<close>

record QModelIndex =
  row :: int
  column :: int
  has_model :: bool
  internalPointer :: nat

definition isValid :: "QModelIndex \<Rightarrow> bool" where
  "isValid index = (0 \<le> row index \<and> 0 \<le> column index \<and> has_model index)"

text \<open>
  The notifications a model emits, in the order of emission. The parent of every bracket
  in this file is the root (\<open>QModelIndex()\<close>), so a bracket carries its first and last
  row only.
\<close>

datatype signal =
    BeginRemoveRows int int
  | EndRemoveRows
  | BeginInsertRows int int
  | EndInsertRows
  | DataChanged QModelIndex QModelIndex

text \<open>
  A \<open>QVariant\<close> handed to \<open>setData\<close> is read only through its conversions, so it is
  the record of what each conversion returns.
\<close>

record QVariant =
  toInt :: int
  toUInt :: "32 word"
  toString :: string

text \<open>\<open>QList::at(i)\<close>: the element, or a fault outside \<open>0 .. size - 1\<close>.\<close>

definition at :: "'a list \<Rightarrow> int \<Rightarrow> error + 'a" where
  "at xs i = (if 0 \<le> i \<and> i < int (length xs) then Inr (xs ! nat i) else Inl IndexOutOfRange)"

text \<open>
  \<open>QString::left(n)\<close>: the first \<open>n\<close> characters; the whole string when \<open>n\<close> is
  negative or not smaller than the size.
\<close>

definition left :: "string \<Rightarrow> int \<Rightarrow> string" where
  "left s n = (if n < 0 \<or> int (length s) \<le> n then s else take (nat n) s)"

section \<open>Table print model\<close>

text \<open>
  Modelled from the spec: \<open>struct TablePrintItem\<close> and the members of
  \<open>TablePrintModel\<close> (models.h), a "flat, explicitly row-managed grid (7 fixed
  columns: number, date, depth, duration, divemaster, buddy, location) plus a per-row
  background color". The model keeps the list of its rows, the row and column counts,
  and here also the notifications it has emitted.
\<close>

record TablePrintItem =
  colorBackground :: "32 word"
  number :: string
  date :: string
  depth :: string
  duration :: string
  divemaster :: string
  buddy :: string
  location :: string

record TablePrintModel =
  list :: "TablePrintItem list"
  rows :: int
  columns :: int
  tp_emitted :: "signal list"

definition newline :: char where
  "newline = CHR 0x0A"

definition maxLines :: int where
  "maxLines = 15"

text \<open>
  The truncation loop of column 6, lines 1114 to 1125: \<open>i\<close> runs over the string,
  \<open>rest\<close> is what lies from \<open>i\<close> on, \<open>count\<close> the newlines met so far. At the first
  newline that takes \<open>count\<close> above \<open>maxLines\<close> the string becomes \<open>s.left(i - 1)\<close> and
  the loop ends.
\<close>

fun truncate_loop :: "string \<Rightarrow> int \<Rightarrow> int \<Rightarrow> string \<Rightarrow> string" where
  "truncate_loop s i count [] = s"
| "truncate_loop s i count (c # rest) =
     (if c \<noteq> newline then truncate_loop s (i + 1) count rest
      else if count + 1 > maxLines then left s (i - 1)
      else truncate_loop s (i + 1) (count + 1) rest)"

definition truncate_lines :: "string \<Rightarrow> string" where
  "truncate_lines s = truncate_loop s 0 0 s"

text \<open>
  The \<open>switch (index.column())\<close> of the display role has no \<open>break\<close>: control enters
  at the label of the column and falls through every later label down to \<open>case 6\<close>.
  Each label is one function that does its assignment and continues with the next.
\<close>

definition case_6 :: "string \<Rightarrow> TablePrintItem \<Rightarrow> TablePrintItem" where
  "case_6 v item = item\<lparr>location := truncate_lines v\<rparr>"

definition case_5 :: "string \<Rightarrow> TablePrintItem \<Rightarrow> TablePrintItem" where
  "case_5 v item = case_6 v (item\<lparr>buddy := v\<rparr>)"

definition case_4 :: "string \<Rightarrow> TablePrintItem \<Rightarrow> TablePrintItem" where
  "case_4 v item = case_5 v (item\<lparr>divemaster := v\<rparr>)"

definition case_3 :: "string \<Rightarrow> TablePrintItem \<Rightarrow> TablePrintItem" where
  "case_3 v item = case_4 v (item\<lparr>duration := v\<rparr>)"

definition case_2 :: "string \<Rightarrow> TablePrintItem \<Rightarrow> TablePrintItem" where
  "case_2 v item = case_3 v (item\<lparr>depth := v\<rparr>)"

definition case_1 :: "string \<Rightarrow> TablePrintItem \<Rightarrow> TablePrintItem" where
  "case_1 v item = case_2 v (item\<lparr>date := v\<rparr>)"

definition case_0 :: "string \<Rightarrow> TablePrintItem \<Rightarrow> TablePrintItem" where
  "case_0 v item = case_1 v (item\<lparr>number := v\<rparr>)"

definition switch_column :: "int \<Rightarrow> string \<Rightarrow> TablePrintItem \<Rightarrow> TablePrintItem" where
  "switch_column col v item =
     (if col = 0 then case_0 v item
      else if col = 1 then case_1 v item
      else if col = 2 then case_2 v item
      else if col = 3 then case_3 v item
      else if col = 4 then case_4 v item
      else if col = 5 then case_5 v item
      else if col = 6 then case_6 v item
      else item)"

text \<open>
  \<open>TablePrintModel::setData\<close>, lines 1094 to 1137. Every store goes through
  \<open>list.at(index.row())\<close>, so a row outside the list is a fault as soon as one store
  is reached; a display-role call whose column matches no label reaches none.
\<close>

definition TablePrintModel_setData ::
  "TablePrintModel \<Rightarrow> QModelIndex \<Rightarrow> QVariant \<Rightarrow> int \<Rightarrow> error + (bool \<times> TablePrintModel)" where
  "TablePrintModel_setData m index val role =
     (if isValid index then
        if role = DisplayRole then
          (if 0 \<le> column index \<and> column index \<le> 6 then
             (case at (list m) (row index) of
                Inl e \<Rightarrow> Inl e
              | Inr item \<Rightarrow>
                  Inr (True, m\<lparr>list := (list m)[nat (row index) :=
                                   switch_column (column index) (toString val) item]\<rparr>))
           else Inr (True, m))
        else if role = BackgroundRole then
          (case at (list m) (row index) of
             Inl e \<Rightarrow> Inl e
           | Inr item \<Rightarrow>
               Inr (True, m\<lparr>list := (list m)[nat (row index) :=
                                item\<lparr>colorBackground := toUInt val\<rparr>]\<rparr>))
        else Inr (False, m)
      else Inr (False, m))"

text \<open>
  The display-role branch of \<open>TablePrintModel::data\<close>, lines 1066 to 1082: the text
  field a column shows.
\<close>

definition text_field :: "int \<Rightarrow> TablePrintItem \<Rightarrow> string option" where
  "text_field col item =
     (if col = 0 then Some (number item)
      else if col = 1 then Some (date item)
      else if col = 2 then Some (depth item)
      else if col = 3 then Some (duration item)
      else if col = 4 then Some (divemaster item)
      else if col = 5 then Some (buddy item)
      else if col = 6 then Some (location item)
      else None)"

text \<open>
  The constructor, lines 1027 to 1031, and \<open>TablePrintModel::insertRow\<close>, lines 1039
  to 1052: a new item has empty texts and a white background. \<open>QList::insert(i, x)\<close>
  prepends for \<open>i \<le> 0\<close> and appends for \<open>i\<close> at or beyond the size.
\<close>

definition TablePrintModel_new :: TablePrintModel where
  "TablePrintModel_new = \<lparr>list = [], rows = 0, columns = 7, tp_emitted = []\<rparr>"

definition new_TablePrintItem :: TablePrintItem where
  "new_TablePrintItem =
     \<lparr>colorBackground = 0xffffffff, number = [], date = [], depth = [], duration = [],
      divemaster = [], buddy = [], location = []\<rparr>"

definition QList_insert :: "int \<Rightarrow> 'a \<Rightarrow> 'a list \<Rightarrow> 'a list" where
  "QList_insert i x xs = take (nat i) xs @ x # drop (nat i) xs"

definition insertRow :: "int \<Rightarrow> TablePrintModel \<Rightarrow> TablePrintModel" where
  "insertRow index m =
     (let item = new_TablePrintItem;
          m1 = (if index = - 1
                then m\<lparr>tp_emitted := tp_emitted m @ [BeginInsertRows (rows m) (rows m)],
                       list := list m @ [item]\<rparr>
                else m\<lparr>tp_emitted := tp_emitted m @ [BeginInsertRows index index],
                       list := QList_insert index item (list m)\<rparr>)
      in m1\<lparr>tp_emitted := tp_emitted m1 @ [EndInsertRows], rows := rows m1 + 1\<rparr>)"

text \<open>
  The reading of the specification for column 6, to compare with \<open>truncate_lines\<close>:
  the text preceding the \<open>n\<close>-th newline of a string, and the whole string when it has
  fewer than \<open>n\<close> newlines.
\<close>

fun text_before_newline :: "nat \<Rightarrow> string \<Rightarrow> string" where
  "text_before_newline n [] = []"
| "text_before_newline n (c # cs) =
     (if c = newline
      then (if n \<le> 1 then [] else c # text_before_newline (n - 1) cs)
      else c # text_before_newline n cs)"

section \<open>Profile print model\<close>

text \<open>
  What a cell of the 12 by 5 fact sheet shows under the display role. The texts are
  built by the formatting helpers of the dive store from the dive the model resolves;
  the model records which fact each cell holds, in the order of the tests of lines 1196
  to 1287.
\<close>

datatype profile_cell =
    DiveNumberAndDate | MaxDepth | DiveLocation | Duration
  | GasUsedHeading | TagsHeading | SacHeading | WeightsHeading
  | NotesHeading | Notes
  | DivemasterHeading | BuddyHeading | SuitHeading | VizHeading | RatingHeading
  | Gases | Tags | Sac | Weights
  | Divemaster | Buddy | Suit | Visibility | Rating
  | EmptyCell

definition ProfilePrintModel_display :: "int \<Rightarrow> int \<Rightarrow> profile_cell" where
  "ProfilePrintModel_display r c =
     (if r = 0 \<and> c = 0 then DiveNumberAndDate
      else if r = 0 \<and> c = 3 then MaxDepth
      else if r = 1 \<and> c = 0 then DiveLocation
      else if r = 1 \<and> c = 3 then Duration
      else if r = 2 \<and> c = 0 then GasUsedHeading
      else if r = 2 \<and> c = 2 then TagsHeading
      else if r = 2 \<and> c = 3 then SacHeading
      else if r = 2 \<and> c = 4 then WeightsHeading
      else if c = 0 \<and> r = 6 then NotesHeading
      else if c = 0 \<and> r = 7 then Notes
      else if r = 4 \<and> c = 0 then DivemasterHeading
      else if r = 4 \<and> c = 1 then BuddyHeading
      else if r = 4 \<and> c = 2 then SuitHeading
      else if r = 4 \<and> c = 3 then VizHeading
      else if r = 4 \<and> c = 4 then RatingHeading
      else if r = 3 \<and> c = 0 then Gases
      else if r = 3 \<and> c = 2 then Tags
      else if r = 3 \<and> c = 3 then Sac
      else if r = 3 \<and> c = 4 then Weights
      else if r = 5 \<and> c = 0 then Divemaster
      else if r = 5 \<and> c = 1 then Buddy
      else if r = 5 \<and> c = 2 then Suit
      else if r = 5 \<and> c = 3 then Visibility
      else if r = 5 \<and> c = 4 then Rating
      else EmptyCell)"

text \<open>The alignment flags of \<open>Qt::AlignmentFlag\<close>.\<close>

definition AlignLeft :: "32 word" where "AlignLeft = 0x0001"
definition AlignRight :: "32 word" where "AlignRight = 0x0002"
definition AlignVCenter :: "32 word" where "AlignVCenter = 0x0080"

text \<open>
  What \<open>ProfilePrintModel::data\<close> returns: a cell text, a font (of the model's point
  size, bold or not), an alignment, or the invalid variant.
\<close>

datatype profile_value =
    CellText profile_cell
  | CellFont bool
  | CellAlignment "32 word"
  | NoProfileValue

text \<open>\<open>ProfilePrintModel::data\<close>, lines 1183 to 1307.\<close>

definition ProfilePrintModel_data :: "QModelIndex \<Rightarrow> int \<Rightarrow> profile_value" where
  "ProfilePrintModel_data index role =
     (let r = row index; c = column index in
      if role = DisplayRole then CellText (ProfilePrintModel_display r c)
      else if role = FontRole then CellFont (r = 0 \<and> c = 0)
      else if role = TextAlignmentRole then
        CellAlignment (if r < 2 \<and> c = 4 then AlignRight OR AlignVCenter else AlignLeft)
      else NoProfileValue)"

definition ProfilePrintModel_rowCount :: int where
  "ProfilePrintModel_rowCount = 12"

definition ProfilePrintModel_columnCount :: int where
  "ProfilePrintModel_columnCount = 5"

section \<open>Yearly statistics model\<close>

text \<open>
  Modelled from the spec: \<open>stats_t\<close> (statistics.h), the "pre-aggregated statistics
  record" of an interval; the record has the fields that models.cpp reads. The
  unsigned counters are 32-bit words, lengths of time are the \<open>seconds\<close> of a
  \<open>duration_t\<close>, depths and volumes the integer of their unit struct, and
  \<open>combined_temp\<close> is a \<open>double\<close>, kept abstract as the type \<open>'d\<close>. The field
  \<open>location\<close> of the C struct is \<open>stats_location\<close> here.
\<close>

record 'd stats_t =
  period :: int
  total_time :: "32 word"
  shortest_time :: "32 word"
  longest_time :: "32 word"
  max_depth :: int
  min_depth :: int
  avg_depth :: int
  max_sac :: int
  min_sac :: int
  avg_sac :: int
  max_temp :: int
  min_temp :: int
  combined_temp :: 'd
  combined_count :: "32 word"
  selection_size :: "32 word"
  is_year :: bool
  is_trip :: bool
  stats_location :: string

text \<open>
  The formatting helpers of the dive store and the operations on \<open>double\<close> that
  \<open>YearStatisticsItem::data\<close> calls are parameters: \<open>number_f1 x\<close> is
  \<open>QString::number(x, 'f', 1)\<close>, \<open>above_minus_100 x\<close> is \<open>x > -100.0\<close>,
  \<open>is_nonzero x\<close> is the truth value of \<open>x\<close>, and \<open>divide_by_count x n\<close> is the
  floating-point quotient \<open>x / n\<close>.
\<close>

record 'd stats_helpers =
  get_time_string :: "32 word \<Rightarrow> string"
  get_minutes :: "32 word \<Rightarrow> string"
  get_depth_string :: "int \<Rightarrow> string"
  get_volume_string :: "int \<Rightarrow> string"
  get_temp_units :: "int \<Rightarrow> 'd"
  number_f1 :: "'d \<Rightarrow> string"
  above_minus_100 :: "'d \<Rightarrow> bool"
  is_nonzero :: "'d \<Rightarrow> bool"
  divide_by_count :: "'d \<Rightarrow> 32 word \<Rightarrow> 'd"

text \<open>The column enum of \<open>YearStatisticsItem\<close>, lines 823 to 840.\<close>

definition YEAR :: int where "YEAR = 0"
definition DIVES :: int where "DIVES = 1"
definition TOTAL_TIME :: int where "TOTAL_TIME = 2"
definition AVERAGE_TIME :: int where "AVERAGE_TIME = 3"
definition SHORTEST_TIME :: int where "SHORTEST_TIME = 4"
definition LONGEST_TIME :: int where "LONGEST_TIME = 5"
definition AVG_DEPTH :: int where "AVG_DEPTH = 6"
definition MIN_DEPTH :: int where "MIN_DEPTH = 7"
definition MAX_DEPTH :: int where "MAX_DEPTH = 8"
definition AVG_SAC :: int where "AVG_SAC = 9"
definition MIN_SAC :: int where "MIN_SAC = 10"
definition MAX_SAC :: int where "MAX_SAC = 11"
definition AVG_TEMP :: int where "AVG_TEMP = 12"
definition MIN_TEMP :: int where "MIN_TEMP = 13"
definition MAX_TEMP :: int where "MAX_TEMP = 14"

text \<open>The variant a statistics cell returns; \<open>NoValue\<close> is the invalid \<open>QVariant\<close>.\<close>

datatype stats_value =
    NoValue
  | StringValue string
  | IntValue int
  | UIntValue "32 word"
  | FontValue bool

text \<open>
  \<open>YearStatisticsItem::data\<close>, lines 853 to 923. The quotient of \<open>AVERAGE_TIME\<close> is
  an integer division with an unsigned divisor, taken on every display-role query of
  that column; with a divisor of zero the C++ program faults, which is the value
  \<open>Inl DivisionByZero\<close>. The quotient of \<open>AVG_TEMP\<close> is floating-point and sits
  behind the test of line 907.
\<close>

definition YearStatisticsItem_data ::
  "'d stats_helpers \<Rightarrow> 'd stats_t \<Rightarrow> int \<Rightarrow> int \<Rightarrow> error + stats_value" where
  "YearStatisticsItem_data H stats_interval col role =
     (if role = FontRole then Inr (FontValue (is_year stats_interval))
      else if role \<noteq> DisplayRole then Inr NoValue
      else if col = YEAR then
        (if is_trip stats_interval then Inr (StringValue (stats_location stats_interval))
         else Inr (IntValue (period stats_interval)))
      else if col = DIVES then Inr (UIntValue (selection_size stats_interval))
      else if col = TOTAL_TIME then
        Inr (StringValue (get_time_string H (total_time stats_interval)))
      else if col = AVERAGE_TIME then
        (if selection_size stats_interval = 0 then Inl DivisionByZero
         else Inr (StringValue (get_minutes H
                (total_time stats_interval div selection_size stats_interval))))
      else if col = SHORTEST_TIME then
        Inr (StringValue (get_minutes H (shortest_time stats_interval)))
      else if col = LONGEST_TIME then
        Inr (StringValue (get_minutes H (longest_time stats_interval)))
      else if col = AVG_DEPTH then Inr (StringValue (get_depth_string H (avg_depth stats_interval)))
      else if col = MIN_DEPTH then Inr (StringValue (get_depth_string H (min_depth stats_interval)))
      else if col = MAX_DEPTH then Inr (StringValue (get_depth_string H (max_depth stats_interval)))
      else if col = AVG_SAC then Inr (StringValue (get_volume_string H (avg_sac stats_interval)))
      else if col = MIN_SAC then Inr (StringValue (get_volume_string H (min_sac stats_interval)))
      else if col = MAX_SAC then Inr (StringValue (get_volume_string H (max_sac stats_interval)))
      else if col = AVG_TEMP then
        (if is_nonzero H (combined_temp stats_interval) \<and> combined_count stats_interval \<noteq> 0
         then Inr (StringValue (number_f1 H
                (divide_by_count H (combined_temp stats_interval) (combined_count stats_interval))))
         else Inr NoValue)
      else if col = MIN_TEMP then
        (let v = get_temp_units H (min_temp stats_interval)
         in if above_minus_100 H v then Inr (StringValue (number_f1 H v)) else Inr NoValue)
      else if col = MAX_TEMP then
        (let v = get_temp_units H (max_temp stats_interval)
         in if above_minus_100 H v then Inr (StringValue (number_f1 H v)) else Inr NoValue)
      else Inr NoValue)"

text \<open>
  A node of the statistics tree with the nodes it owns. The tree is built bottom-up and
  no node is reached through a second pointer, so it is a value.
\<close>

datatype 'd YearStatisticsItem =
  YearStatisticsItem (stats_interval: "'d stats_t") (stat_children: "'d YearStatisticsItem list")

definition append_child :: "'d YearStatisticsItem \<Rightarrow> 'd YearStatisticsItem \<Rightarrow> 'd YearStatisticsItem" where
  "append_child item iChild =
     YearStatisticsItem (stats_interval item) (stat_children item @ [iChild])"

text \<open>
  The three global statistics tables are C arrays behind a pointer: the null pointer or
  a block of elements. Reading through the null pointer or past the block is a fault.
\<close>

datatype 'a c_array = NULL | Array "'a list"

fun read :: "'a c_array \<Rightarrow> nat \<Rightarrow> error + 'a" where
  "read NULL i = Inl NullDereference"
| "read (Array xs) i = (if i < length xs then Inr (xs ! i) else Inl ArrayOverrun)"

fun array_size :: "'a c_array \<Rightarrow> nat" where
  "array_size NULL = 0"
| "array_size (Array xs) = length xs"

text \<open>
  The inner loop of \<open>update_yearly_stats\<close>, lines 996 to 1003, for the year node
  \<open>item\<close> whose dive count is \<open>year_size\<close>: while the accumulated count
  \<open>combined_months\<close> (an \<open>unsigned int\<close>) is below the year's count, the bucket at
  \<open>month\<close> is added to it and becomes the next child, and \<open>month\<close> advances.
\<close>

function month_loop ::
  "'d stats_t c_array \<Rightarrow> 32 word \<Rightarrow> 32 word \<Rightarrow> nat \<Rightarrow> 'd YearStatisticsItem
     \<Rightarrow> error + ('d YearStatisticsItem \<times> nat)" where
  "month_loop stats_monthly year_size combined_months month item =
     (if combined_months < year_size then
        (case read stats_monthly month of
           Inl e \<Rightarrow> Inl e
         | Inr bucket \<Rightarrow>
             month_loop stats_monthly year_size (combined_months + selection_size bucket)
               (month + 1) (append_child item (YearStatisticsItem bucket [])))
      else Inr (item, month))"
  by pat_completeness auto
termination
  by (relation "measure (\<lambda>(a, _, _, month, _). array_size a - month)")
     (auto elim: read.elims split: if_splits)

text \<open>
  The outer loop, lines 994 to 1006, over the array behind a non-null \<open>stats_yearly\<close>:
  it ends at the first entry whose \<open>period\<close> is zero. \<open>month\<close> is carried from year
  to year.
\<close>

function year_loop ::
  "'d stats_t list \<Rightarrow> 'd stats_t c_array \<Rightarrow> nat \<Rightarrow> nat \<Rightarrow> 'd YearStatisticsItem list
     \<Rightarrow> error + ('d YearStatisticsItem list \<times> nat)" where
  "year_loop yearly stats_monthly i month root_children =
     (case read (Array yearly) i of
        Inl e \<Rightarrow> Inl e
      | Inr year \<Rightarrow>
          if period year = 0 then Inr (root_children, month)
          else (case month_loop stats_monthly (selection_size year) 0 month
                       (YearStatisticsItem year []) of
                  Inl e \<Rightarrow> Inl e
                | Inr (item, month') \<Rightarrow>
                    year_loop yearly stats_monthly (i + 1) month' (root_children @ [item])))"
  by pat_completeness auto
termination
  by (relation "measure (\<lambda>(yearly, _, i, _, _). length yearly - i)")
     (auto split: if_splits)

text \<open>The loop of lines 1011 to 1015 over the trip statistics, from index 1.\<close>

function trip_loop ::
  "'d stats_t list \<Rightarrow> nat \<Rightarrow> 'd YearStatisticsItem \<Rightarrow> error + 'd YearStatisticsItem" where
  "trip_loop by_trip i item =
     (case read (Array by_trip) i of
        Inl e \<Rightarrow> Inl e
      | Inr t \<Rightarrow>
          if is_trip t
          then trip_loop by_trip (i + 1) (append_child item (YearStatisticsItem t []))
          else Inr item)"
  by pat_completeness auto
termination
  by (relation "measure (\<lambda>(by_trip, i, _). length by_trip - i)")
     (auto split: if_splits)

text \<open>
  \<open>YearlyStatisticsModel::update_yearly_stats\<close>, lines 989 to 1019, on the children
  of the root item. The result also gives the final value of \<open>month\<close>.
\<close>

definition update_yearly_stats ::
  "'d stats_t c_array \<Rightarrow> 'd stats_t c_array \<Rightarrow> 'd stats_t c_array \<Rightarrow> 'd YearStatisticsItem list
     \<Rightarrow> error + ('d YearStatisticsItem list \<times> nat)" where
  "update_yearly_stats stats_yearly stats_monthly stats_by_trip root_children =
     (case (case stats_yearly of
              NULL \<Rightarrow> Inr (root_children, 0)
            | Array yearly \<Rightarrow> year_loop yearly stats_monthly 0 0 root_children) of
        Inl e \<Rightarrow> Inl e
      | Inr (root_children', month) \<Rightarrow>
          (case stats_by_trip of
             NULL \<Rightarrow> Inr (root_children', month)
           | Array by_trip \<Rightarrow>
               (case read (Array by_trip) 0 of
                  Inl e \<Rightarrow> Inl e
                | Inr t0 \<Rightarrow>
                    if is_trip t0 then
                      (case trip_loop by_trip 1 (YearStatisticsItem t0 []) of
                         Inl e \<Rightarrow> Inl e
                       | Inr item \<Rightarrow> Inr (root_children' @ [item], month))
                    else Inr (root_children', month))))"

section \<open>Device list model\<close>

text \<open>
  Modelled from the spec: \<open>DiveComputerNode\<close> (divecomputer.h), the entry of the
  device list "holding device id / model / nickname"; its \<open>operator==\<close> compares
  every field.
\<close>

record DiveComputerNode =
  model :: string
  deviceId :: "32 word"
  nickName :: string

text \<open>\<open>QString::operator<\<close>: the lexicographic order of the code units.\<close>

fun QString_less :: "string \<Rightarrow> string \<Rightarrow> bool" where
  "QString_less [] [] = False"
| "QString_less [] (y # ys) = True"
| "QString_less (x # xs) [] = False"
| "QString_less (x # xs) (y # ys) =
     ((of_char x :: nat) < of_char y \<or> (x = y \<and> QString_less xs ys))"

text \<open>
  A \<open>QMultiMap<QString, T>\<close> is the list of its entries in iteration order: keys
  ascending, and the entries of one key from the most recently inserted to the least
  recently inserted. \<open>insert\<close> puts the entry in front of the first entry whose key
  is not smaller, \<open>remove(key, value)\<close> drops every entry with that key and that
  value, \<open>values()\<close> lists the values in iteration order.
\<close>

type_synonym 'v QMultiMap = "(string \<times> 'v) list"

fun QMultiMap_insert :: "string \<Rightarrow> 'v \<Rightarrow> 'v QMultiMap \<Rightarrow> 'v QMultiMap" where
  "QMultiMap_insert k v [] = [(k, v)]"
| "QMultiMap_insert k v ((k', v') # es) =
     (if QString_less k' k then (k', v') # QMultiMap_insert k v es
      else (k, v) # (k', v') # es)"

definition QMultiMap_remove :: "string \<Rightarrow> 'v \<Rightarrow> 'v QMultiMap \<Rightarrow> 'v QMultiMap" where
  "QMultiMap_remove k v es = filter (\<lambda>e. \<not> (fst e = k \<and> snd e = v)) es"

definition QMultiMap_values :: "'v QMultiMap \<Rightarrow> 'v list" where
  "QMultiMap_values es = map snd es"

record DiveComputerModel =
  dcWorkingMap :: "DiveComputerNode QMultiMap"
  numRows :: int
  dc_emitted :: "signal list"

text \<open>
  Modelled from the spec: the column enum of the device list (models.h), in the order
  of the header strings of line 711: the remove affordance, model, device id,
  nickname.
\<close>

definition REMOVE :: int where "REMOVE = 0"
definition MODEL :: int where "MODEL = 1"
definition ID :: int where "ID = 2"
definition NICKNAME :: int where "NICKNAME = 3"

text \<open>The item flags of \<open>Qt::ItemFlag\<close>.\<close>

definition ItemIsSelectable :: "32 word" where "ItemIsSelectable = 1"
definition ItemIsEditable :: "32 word" where "ItemIsEditable = 2"
definition ItemIsEnabled :: "32 word" where "ItemIsEnabled = 32"

text \<open>
  \<open>DiveComputerModel::flags\<close>, lines 775 to 781; \<open>base\<close> is what
  \<open>QAbstractItemModel::flags(index)\<close> returns.
\<close>

definition DiveComputerModel_flags :: "32 word \<Rightarrow> QModelIndex \<Rightarrow> 32 word" where
  "DiveComputerModel_flags base index =
     (if column index = NICKNAME then base OR ItemIsEditable else base)"

definition DiveComputerModel_rowCount :: "DiveComputerModel \<Rightarrow> int" where
  "DiveComputerModel_rowCount m = numRows m"

text \<open>\<open>DiveComputerModel::setData\<close>, lines 783 to 792.\<close>

definition DiveComputerModel_setData ::
  "DiveComputerModel \<Rightarrow> QModelIndex \<Rightarrow> QVariant \<Rightarrow> int \<Rightarrow> error + (bool \<times> DiveComputerModel)" where
  "DiveComputerModel_setData m index val role =
     (case at (QMultiMap_values (dcWorkingMap m)) (row index) of
        Inl e \<Rightarrow> Inl e
      | Inr node \<Rightarrow>
          (let removed = QMultiMap_remove (model node) node (dcWorkingMap m);
               node' = node\<lparr>nickName := toString val\<rparr>;
               inserted = QMultiMap_insert (model node') node' removed
           in Inr (True, m\<lparr>dcWorkingMap := inserted,
                            dc_emitted := dc_emitted m @ [DataChanged index index]\<rparr>)))"

text \<open>\<open>DiveComputerModel::update\<close>, lines 757 to 773.\<close>

definition DiveComputerModel_update :: "DiveComputerModel \<Rightarrow> DiveComputerModel" where
  "DiveComputerModel_update m =
     (let count = int (length (QMultiMap_values (dcWorkingMap m)));
          m1 = (if numRows m \<noteq> 0
                then m\<lparr>numRows := 0,
                       dc_emitted := dc_emitted m @ [BeginRemoveRows 0 (numRows m - 1), EndRemoveRows]\<rparr>
                else m)
      in if count \<noteq> 0
         then m1\<lparr>numRows := count,
                 dc_emitted := dc_emitted m1 @ [BeginInsertRows 0 (count - 1), EndInsertRows]\<rparr>
         else m1)"

section \<open>The dive store\<close>

text \<open>
  Modelled from the spec: the dive table and its accessors (dive.h): "record-by-id
  lookup, iteration over a dive collection, trip identity per dive, ... a mark dirty
  signal". A dive has its unique id, its number and its trip, a pointer that is null
  for a dive outside every trip; the fields \<open>id\<close> and \<open>number\<close> of the C struct are
  \<open>dive_id\<close> and \<open>dive_number\<close> here. \<open>get_dive\<close> is null outside the table,
  \<open>get_dive_by_uniq_id\<close> is the first dive of the table with the id (its position
  stands for the pointer) and null when there is none, \<open>mark_divelist_changed\<close> sets
  the dirty flag.
\<close>

record dive =
  dive_id :: int
  dive_number :: int
  divetrip :: "nat option"

record dive_store =
  dives :: "dive list"
  preexisting :: int
  changed :: bool

definition get_dive :: "dive list \<Rightarrow> int \<Rightarrow> dive option" where
  "get_dive ds i = (if 0 \<le> i \<and> i < int (length ds) then Some (ds ! nat i) else None)"

fun get_dive_by_uniq_id :: "dive list \<Rightarrow> int \<Rightarrow> nat option" where
  "get_dive_by_uniq_id [] ident = None"
| "get_dive_by_uniq_id (d # ds) ident =
     (if dive_id d = ident then Some 0 else map_option Suc (get_dive_by_uniq_id ds ident))"

definition mark_divelist_changed :: "bool \<Rightarrow> dive_store \<Rightarrow> dive_store" where
  "mark_divelist_changed b store = store\<lparr>changed := b\<rparr>"

section \<open>Grouped dive list\<close>

text \<open>
  Modelled from the spec: \<open>DiveTripModel::NR\<close> (models.h), the first of the
  "fourteen columns, fixed order": number, date, rating, and so on.
\<close>

definition NR :: int where "NR = 0"

text \<open>
  The loop of lines 422 to 425 over every dive of the table: whether some dive carries
  the number \<open>v\<close>.
\<close>

fun number_in_use :: "int \<Rightarrow> dive list \<Rightarrow> bool" where
  "number_in_use v [] = False"
| "number_in_use v (d # ds) = (if dive_number d = v then True else number_in_use v ds)"

text \<open>
  \<open>DiveItem::setData\<close>, lines 409 to 430, of the item whose dive has the id
  \<open>diveId\<close>. The store through the result of \<open>get_dive_by_uniq_id\<close> is a fault when
  the id resolves to nothing.
\<close>

definition DiveItem_setData ::
  "dive_store \<Rightarrow> int \<Rightarrow> QModelIndex \<Rightarrow> QVariant \<Rightarrow> int \<Rightarrow> error + (bool \<times> dive_store)" where
  "DiveItem_setData store diveId index val role =
     (if role \<noteq> EditRole then Inr (False, store)
      else if column index \<noteq> NR then Inr (False, store)
      else
        (let v = toInt val in
         if v = 0 then Inr (False, store)
         else if number_in_use v (dives store) then Inr (False, store)
         else
           (case get_dive_by_uniq_id (dives store) diveId of
              None \<Rightarrow> Inl NullDereference
            | Some k \<Rightarrow>
                Inr (True, mark_divelist_changed True
                       (store\<lparr>dives := (dives store)[k := (dives store ! k)\<lparr>dive_number := toInt val\<rparr>]\<rparr>)))))"

text \<open>
  Modelled from the spec: the members of \<open>TreeItem\<close>, \<open>DiveItem\<close>, \<open>TreeModel\<close>
  and \<open>DiveTripModel\<close> and the enum \<open>Layout\<close> (models.h): a node owns the
  "ordered sequence of owned child Nodes" and has a "non-owning parent
  back-reference"; the layouts are "list" and "grouped" (\<open>TREE\<close>).
  The items of the tree live in a store of addresses, since the model reaches a trip
  item both through the children of the root and through the map \<open>trips\<close>. An item
  has its dynamic class with the member of that class (\<open>diveId\<close> of a \<open>DiveItem\<close>,
  \<open>trip\<close> of a \<open>TripItem\<close>), its parent pointer and the list of its children.
\<close>

datatype item_class = TreeItem | DiveItem int | TripItem nat

record tree_item =
  item_class :: item_class
  parent :: "nat option"
  children :: "nat list"

datatype Layout = TREE | LIST

record DiveTripModel =
  items :: "nat \<Rightarrow> tree_item"
  next_item :: nat
  rootItem :: nat
  trips :: "nat \<rightharpoonup> nat"
  currentLayout :: Layout
  autogroup :: bool
  emitted :: "signal list"

text \<open>
  \<open>new\<close> of an item: the constructor \<open>TreeItem::TreeItem\<close> clears the parent, and the
  item gets the next address, which no pointer of the model holds yet.
\<close>

definition new_item :: "item_class \<Rightarrow> DiveTripModel \<Rightarrow> nat \<times> DiveTripModel" where
  "new_item c m =
     (next_item m,
      m\<lparr>items := (items m)(next_item m := \<lparr>item_class = c, parent = None, children = []\<rparr>),
        next_item := next_item m + 1\<rparr>)"

definition set_parent :: "nat \<Rightarrow> nat \<Rightarrow> DiveTripModel \<Rightarrow> DiveTripModel" where
  "set_parent a p m = m\<lparr>items := (items m)(a := (items m a)\<lparr>parent := Some p\<rparr>)\<rparr>"

definition push_back :: "nat \<Rightarrow> nat \<Rightarrow> DiveTripModel \<Rightarrow> DiveTripModel" where
  "push_back a child m =
     m\<lparr>items := (items m)(a := (items m a)\<lparr>children := children (items m a) @ [child]\<rparr>)\<rparr>"

definition emit :: "signal list \<Rightarrow> DiveTripModel \<Rightarrow> DiveTripModel" where
  "emit sigs m = m\<lparr>emitted := emitted m @ sigs\<rparr>"

text \<open>\<open>TreeModel::rowCount\<close> for the invalid parent index, lines 136 to 147.\<close>

definition rowCount :: "DiveTripModel \<Rightarrow> int" where
  "rowCount m = int (length (children (items m (rootItem m))))"

text \<open>
  The constructor \<open>TreeModel::TreeModel\<close>: a root item without children; the map of
  trips is empty. Layout and grouping flag are set by the owner of the model.
\<close>

definition TreeModel_new :: "Layout \<Rightarrow> bool \<Rightarrow> DiveTripModel" where
  "TreeModel_new layout ag =
     \<lparr>items = (\<lambda>_. \<lparr>item_class = TreeItem, parent = None, children = []\<rparr>),
      next_item = 1, rootItem = 0, trips = Map.empty,
      currentLayout = layout, autogroup = ag, emitted = []\<rparr>"

text \<open>
  The body of the loop of \<open>setupModelData\<close>, lines 648 to 673, for one dive.
  \<open>update_cylinder_related_info\<close> changes no field of the dive that the model has.
\<close>

definition loop_body :: "dive \<Rightarrow> DiveTripModel \<Rightarrow> DiveTripModel" where
  "loop_body d m =
     (let (diveItem, m1) = new_item (DiveItem (dive_id d)) m in
      if divetrip d = None \<or> currentLayout m1 = LIST then
        push_back (rootItem m1) diveItem (set_parent diveItem (rootItem m1) m1)
      else if currentLayout m1 = LIST then m1
      else
        (let trip = the (divetrip d) in
         case trips m1 trip of
           None \<Rightarrow>
             (let (tripItem, m2) = new_item (TripItem trip) m1;
                  m3 = set_parent tripItem (rootItem m2) m2;
                  m4 = push_back tripItem diveItem m3;
                  m5 = m4\<lparr>trips := (trips m4)(trip \<mapsto> tripItem)\<rparr>
              in push_back (rootItem m5) tripItem m5)
         | Some tripItem \<Rightarrow> push_back tripItem diveItem m1))"

text \<open>
  The loop \<open>while (--i >= 0)\<close>, lines 647 to 674: \<open>dive_loop i\<close> runs the body for
  the indices \<open>i - 1\<close> down to \<open>0\<close>. Reading the trip of a null dive is a fault.
\<close>

fun dive_loop :: "nat \<Rightarrow> dive list \<Rightarrow> DiveTripModel \<Rightarrow> error + DiveTripModel" where
  "dive_loop 0 ds m = Inr m"
| "dive_loop (Suc i) ds m =
     (case get_dive ds (int i) of
        None \<Rightarrow> Inl NullDereference
      | Some d \<Rightarrow> dive_loop i ds (loop_body d m))"

text \<open>
  \<open>DiveTripModel::setupModelData\<close>, lines 635 to 680. \<open>autogroup_dives\<close> belongs to
  the dive store and is a parameter. \<open>i\<close> is read from the table before the grouping
  runs.
\<close>

definition setupModelData ::
  "(dive list \<Rightarrow> dive list) \<Rightarrow> DiveTripModel \<times> dive_store \<Rightarrow> error + (DiveTripModel \<times> dive_store)" where
  "setupModelData autogroup_dives ms =
     (let m = fst ms; store = snd ms;
          i = length (dives store);
          m1 = (if rowCount m \<noteq> 0
                then emit [BeginRemoveRows 0 (rowCount m - 1), EndRemoveRows] m
                else m);
          store1 = (if autogroup m1 then store\<lparr>dives := autogroup_dives (dives store)\<rparr> else store);
          store2 = store1\<lparr>preexisting := int (length (dives store1))\<rparr>
      in case dive_loop i (dives store2) m1 of
           Inl e \<Rightarrow> Inl e
         | Inr m2 \<Rightarrow>
             Inr (if rowCount m2 \<noteq> 0
                  then emit [BeginInsertRows 0 (rowCount m2 - 1), EndInsertRows] m2
                  else m2,
                  store2))"

text \<open>\<open>DiveTripModel::setLayout\<close>, lines 687 to 691.\<close>

definition setLayout ::
  "(dive list \<Rightarrow> dive list) \<Rightarrow> Layout \<Rightarrow> DiveTripModel \<times> dive_store
     \<Rightarrow> error + (DiveTripModel \<times> dive_store)" where
  "setLayout autogroup_dives layout ms =
     setupModelData autogroup_dives ((fst ms)\<lparr>currentLayout := layout\<rparr>, snd ms)"

text \<open>
  What a consumer sees of the tree: for each child of the root, in order, its class
  and the classes of its children.
\<close>

datatype row_view = Row item_class "item_class list"

definition view_of :: "DiveTripModel \<Rightarrow> nat \<Rightarrow> row_view" where
  "view_of m a =
     Row (item_class (items m a)) (map (\<lambda>c. item_class (items m c)) (children (items m a)))"

definition root_rows :: "DiveTripModel \<Rightarrow> row_view list" where
  "root_rows m = map (view_of m) (children (items m (rootItem m)))"

text \<open>
  The grouping as the specification words it, to compare with \<open>setupModelData\<close>: the
  dives are taken in reverse store order; a dive without trip becomes a root-level
  row; the first dive seen for a trip creates the trip's row at the end of the root
  rows, and a later dive of the same trip is appended to the existing row.
\<close>

fun append_to_trip :: "nat \<Rightarrow> item_class \<Rightarrow> row_view list \<Rightarrow> row_view list option" where
  "append_to_trip t x [] = None"
| "append_to_trip t x (Row c kids # rs) =
     (if c = TripItem t then Some (Row c (kids @ [x]) # rs)
      else map_option ((#) (Row c kids)) (append_to_trip t x rs))"

definition grouped_add :: "dive \<Rightarrow> row_view list \<Rightarrow> row_view list" where
  "grouped_add d rs =
     (case divetrip d of
        None \<Rightarrow> rs @ [Row (DiveItem (dive_id d)) []]
      | Some t \<Rightarrow>
          (case append_to_trip t (DiveItem (dive_id d)) rs of
             Some rs' \<Rightarrow> rs'
           | None \<Rightarrow> rs @ [Row (TripItem t) [DiveItem (dive_id d)]]))"

definition grouped_rows :: "dive list \<Rightarrow> row_view list" where
  "grouped_rows ds = fold grouped_add (rev ds) []"

section \<open>Vocabulary of the properties\<close>

text \<open>
  For the statistics tree: the accumulated dive count of a run of monthly buckets (in
  the arithmetic of \<open>unsigned int\<close>), the childless nodes made from a run, and what
  it means that the inner loop, entered with the accumulated count \<open>c\<close> at the bucket
  \<open>month\<close>, takes exactly \<open>n\<close> buckets: the buckets exist, after fewer than \<open>n\<close>
  of them the accumulated count is still below the year's count, and after \<open>n\<close> it
  is not.
\<close>

definition month_count :: "'d stats_t list \<Rightarrow> 32 word" where
  "month_count bs = sum_list (map selection_size bs)"

definition month_nodes :: "'d stats_t list \<Rightarrow> 'd YearStatisticsItem list" where
  "month_nodes bs = map (\<lambda>b. YearStatisticsItem b []) bs"

definition months_taken :: "'d stats_t list \<Rightarrow> 32 word \<Rightarrow> 32 word \<Rightarrow> nat \<Rightarrow> nat \<Rightarrow> bool" where
  "months_taken ms year_size c month n \<longleftrightarrow>
     (n = 0 \<or> month + n \<le> length ms) \<and>
     (\<forall>k<n. c + month_count (take k (drop month ms)) < year_size) \<and>
     \<not> c + month_count (take n (drop month ms)) < year_size"

text \<open>
  The year nodes that a run of the outer loop over the years \<open>ys\<close> may add, when it
  enters at the bucket \<open>month\<close> and leaves at \<open>month'\<close>: one node per year, in
  order, each with the buckets its inner loop takes, the next year going on where the
  year before has stopped.
\<close>

fun years_run ::
  "'d stats_t list \<Rightarrow> 'd stats_t list \<Rightarrow> nat \<Rightarrow> 'd YearStatisticsItem list \<Rightarrow> nat \<Rightarrow> bool" where
  "years_run ms [] month nodes month' \<longleftrightarrow> nodes = [] \<and> month' = month"
| "years_run ms (y # ys) month nodes month' \<longleftrightarrow>
     (\<exists>n rest. months_taken ms (selection_size y) 0 month n \<and>
        nodes = YearStatisticsItem y (month_nodes (take n (drop month ms))) # rest \<and>
        years_run ms ys (month + n) rest month')"

text \<open>
  An interval with a period and a dive count and nothing else, for concrete tables.
\<close>

definition interval :: "int \<Rightarrow> 32 word \<Rightarrow> unit stats_t" where
  "interval p n =
     \<lparr>period = p, total_time = 0, shortest_time = 0, longest_time = 0,
      max_depth = 0, min_depth = 0, avg_depth = 0, max_sac = 0, min_sac = 0, avg_sac = 0,
      max_temp = 0, min_temp = 0, combined_temp = (), combined_count = 0,
      selection_size = n, is_year = False, is_trip = False, stats_location = []\<rparr>"

text \<open>
  For the dive list: the shape of the item store that \<open>setupModelData\<close> keeps. The
  root and its children are allocated, the children of the root are distinct, no child
  of a root-level item is itself the root or a root-level item, and \<open>trips\<close> maps a
  trip exactly to the root-level \<open>TripItem\<close> of that trip.
\<close>

definition wf_model :: "DiveTripModel \<Rightarrow> bool" where
  "wf_model m \<longleftrightarrow>
     (let r = rootItem m; rc = children (items m r) in
      r < next_item m \<and> distinct rc \<and> r \<notin> set rc \<and> (\<forall>a\<in>set rc. a < next_item m) \<and>
      (\<forall>a\<in>set rc. \<forall>c\<in>set (children (items m a)).
          c < next_item m \<and> c \<notin> set rc \<and> c \<noteq> r) \<and>
      (\<forall>t a. trips m t = Some a \<longrightarrow> a \<in> set rc \<and> item_class (items m a) = TripItem t) \<and>
      (\<forall>a\<in>set rc. \<forall>t. item_class (items m a) = TripItem t \<longrightarrow> trips m t = Some a))"

section \<open>Properties of the table print model\<close>

lemmas role_defs = DisplayRole_def DecorationRole_def EditRole_def ToolTipRole_def
  FontRole_def TextAlignmentRole_def BackgroundRole_def SizeHintRole_def

lemmas case_defs = case_0_def case_1_def case_2_def case_3_def case_4_def case_5_def case_6_def

text \<open>
  What the truncation loop computes. With \<open>pre\<close> the part of the string already
  passed: when the whole string has more than 15 newlines the result is the text
  before the 16th newline without its last character, otherwise the string itself.
\<close>

lemma truncate_loop_result:
  "count = int (count_list pre newline) \<Longrightarrow> count \<le> 15 \<Longrightarrow> i = int (length pre) \<Longrightarrow>
   truncate_loop (pre @ rest) i count rest =
     (if 15 < count_list (pre @ rest) newline
      then butlast (pre @ text_before_newline (16 - count_list pre newline) rest)
      else pre @ rest)"
proof (induction rest arbitrary: pre i count)
  case Nil
  then show ?case by simp
next
  case (Cons c rest)
  show ?case
  proof (cases "c = newline")
    case False
    have "truncate_loop (pre @ c # rest) i count (c # rest)
            = truncate_loop ((pre @ [c]) @ rest) (i + 1) count rest"
      using False by simp
    also have "\<dots> = (if 15 < count_list ((pre @ [c]) @ rest) newline
      then butlast ((pre @ [c]) @ text_before_newline (16 - count_list (pre @ [c]) newline) rest)
      else (pre @ [c]) @ rest)"
      by (rule Cons.IH) (use Cons.prems False in auto)
    finally show ?thesis using False by simp
  next
    case True
    show ?thesis
    proof (cases "count + 1 > maxLines")
      case over: True
      then have c15: "count_list pre newline = 15"
        using Cons.prems by (simp add: maxLines_def)
      then have len: "15 \<le> length pre"
        using count_le_length[of pre newline] by simp
      have "truncate_loop (pre @ c # rest) i count (c # rest) = left (pre @ c # rest) (i - 1)"
        using True over by simp
      also have "\<dots> = take (length pre - 1) (pre @ c # rest)"
        using len Cons.prems by (auto simp: left_def nat_diff_distrib)
      also have "\<dots> = butlast pre"
        using len by (simp add: butlast_conv_take)
      finally show ?thesis using True c15 by simp
    next
      case under: False
      have "truncate_loop (pre @ c # rest) i count (c # rest)
              = truncate_loop ((pre @ [c]) @ rest) (i + 1) (count + 1) rest"
        using True under by simp
      also have "\<dots> = (if 15 < count_list ((pre @ [c]) @ rest) newline
        then butlast ((pre @ [c]) @ text_before_newline (16 - count_list (pre @ [c]) newline) rest)
        else (pre @ [c]) @ rest)"
        by (rule Cons.IH) (use Cons.prems True under in \<open>auto simp: maxLines_def\<close>)
      finally show ?thesis using True under Cons.prems
        by (auto simp: maxLines_def Suc_diff_le)
    qed
  qed
qed

lemma truncate_lines_result:
  "truncate_lines s =
     (if 15 < count_list s newline then butlast (text_before_newline 16 s) else s)"
  using truncate_loop_result[of 0 "[]" 0 s] by (simp add: truncate_lines_def)

text \<open>
  C3. The claim: a text with more than 15 newlines is stored as exactly the text before
  its 16th newline. The code stores one character less. For twenty lines \<open>ab\<close>, each
  ended by a newline, the text before the 16th newline is fifteen full lines followed
  by \<open>ab\<close>; \<open>s.left(i - 1)\<close> keeps fifteen full lines followed by \<open>a\<close>.
\<close>

theorem truncate_lines_twenty_lines:
  "truncate_lines (concat (replicate 20 [CHR ''a'', CHR ''b'', newline]))
     = concat (replicate 15 [CHR ''a'', CHR ''b'', newline]) @ ''a'' \<and>
   text_before_newline 16 (concat (replicate 20 [CHR ''a'', CHR ''b'', newline]))
     = concat (replicate 15 [CHR ''a'', CHR ''b'', newline]) @ ''ab''"
  by code_simp

text \<open>
  C7, as stated, fails: an edit-role write to a text column of an existing row is
  refused and changes nothing, since the code tests for the display role.
\<close>

theorem TablePrintModel_setData_refuses_edit_role:
  "isValid \<lparr>row = 0, column = 0, has_model = True, internalPointer = 0\<rparr> \<and>
   TablePrintModel_setData (insertRow (- 1) TablePrintModel_new)
       \<lparr>row = 0, column = 0, has_model = True, internalPointer = 0\<rparr>
       \<lparr>toInt = 12, toUInt = 12, toString = ''12''\<rparr> EditRole
     = Inr (False, insertRow (- 1) TablePrintModel_new)"
  by (simp add: TablePrintModel_setData_def isValid_def role_defs)

text \<open>
  C7, amended. For an index whose row is a row of the buffer, \<open>setData\<close> returns
  success exactly when the index is valid and the role is the display role or the
  background role; with any other role (the edit role among them) or an invalid index
  it returns failure and the model is unchanged.
\<close>

theorem TablePrintModel_setData_succeeds_iff:
  assumes "row index < int (length (list m))"
  shows "\<exists>m'. TablePrintModel_setData m index val role
                = Inr (isValid index \<and> (role = DisplayRole \<or> role = BackgroundRole), m') \<and>
              (\<not> (isValid index \<and> (role = DisplayRole \<or> role = BackgroundRole)) \<longrightarrow> m' = m)"
  using assms by (auto simp: TablePrintModel_setData_def at_def isValid_def role_defs)

theorem TablePrintModel_setData_succeeds_iff_witness:
  "row \<lparr>row = 0, column = 2, has_model = True, internalPointer = 0\<rparr>
     < int (length (list (insertRow (- 1) TablePrintModel_new))) \<and>
   (\<exists>m'. TablePrintModel_setData (insertRow (- 1) TablePrintModel_new)
            \<lparr>row = 0, column = 2, has_model = True, internalPointer = 0\<rparr>
            \<lparr>toInt = 0, toUInt = 0, toString = ''18 m''\<rparr> DisplayRole = Inr (True, m'))"
proof -
  have h: "row \<lparr>row = 0, column = 2, has_model = True, internalPointer = 0\<rparr>
             < int (length (list (insertRow (- 1) TablePrintModel_new)))"
    by (simp add: insertRow_def TablePrintModel_new_def)
  show ?thesis
    using h TablePrintModel_setData_succeeds_iff [OF h,
        of "\<lparr>toInt = 0, toUInt = 0, toString = ''18 m''\<rparr>" DisplayRole]
    by (simp add: isValid_def)
qed

text \<open>
  C10. A display-role write to a valid index of an existing row with column \<open>k\<close>
  between 0 and 6 succeeds and replaces that row only: every text field of a column
  \<open>j\<close> from \<open>k\<close> to 5 holds the written text, every text field of a column below
  \<open>k\<close> is as before, the location holds the truncated text, and the background is as
  before. So a write to column 6 alone leaves the six other fields unchanged.
\<close>

theorem TablePrintModel_setData_falls_through:
  assumes "isValid index" and "row index < int (length (list m))" and "column index \<le> 6"
  shows "\<exists>item'. TablePrintModel_setData m index val DisplayRole
                    = Inr (True, m\<lparr>list := (list m)[nat (row index) := item']\<rparr>) \<and>
           (\<forall>j. 0 \<le> j \<and> j \<le> 5 \<longrightarrow>
                text_field j item' =
                  (if column index \<le> j then Some (toString val)
                   else text_field j (list m ! nat (row index)))) \<and>
           location item' = truncate_lines (toString val) \<and>
           colorBackground item' = colorBackground (list m ! nat (row index))"
proof -
  have c: "0 \<le> column index" "0 \<le> row index"
    using assms(1) by (simp_all add: isValid_def)
  then consider "column index = 0" | "column index = 1" | "column index = 2"
    | "column index = 3" | "column index = 4" | "column index = 5" | "column index = 6"
    using assms(3) by linarith
  then show ?thesis
    using assms(1,2) c
    by cases (auto simp: TablePrintModel_setData_def at_def switch_column_def case_defs
        text_field_def)
qed

theorem TablePrintModel_setData_falls_through_witness:
  "\<exists>item'. TablePrintModel_setData (insertRow (- 1) TablePrintModel_new)
              \<lparr>row = 0, column = 4, has_model = True, internalPointer = 0\<rparr>
              \<lparr>toInt = 0, toUInt = 0, toString = ''Ann''\<rparr> DisplayRole
            = Inr (True, (insertRow (- 1) TablePrintModel_new)\<lparr>list := [item']\<rparr>) \<and>
          text_field 3 item' = Some [] \<and> text_field 4 item' = Some ''Ann'' \<and>
          text_field 5 item' = Some ''Ann'' \<and> location item' = ''Ann''"
proof -
  let ?i = "\<lparr>row = 0, column = 4, has_model = True, internalPointer = 0\<rparr>"
  let ?m = "insertRow (- 1) TablePrintModel_new"
  have l: "list ?m = [new_TablePrintItem]"
    by (simp add: insertRow_def TablePrintModel_new_def)
  have h1: "isValid ?i" by (simp add: isValid_def)
  have h2: "row ?i < int (length (list ?m))" by (simp add: l)
  have h3: "column ?i \<le> 6" by simp
  have t: "truncate_lines ''Ann'' = ''Ann''" by code_simp
  from TablePrintModel_setData_falls_through [OF h1 h2 h3,
      of "\<lparr>toInt = 0, toUInt = 0, toString = ''Ann''\<rparr>"]
  obtain item' where r: "TablePrintModel_setData ?m ?i
        \<lparr>toInt = 0, toUInt = 0, toString = ''Ann''\<rparr> DisplayRole
          = Inr (True, ?m\<lparr>list := (list ?m)[nat (row ?i) := item']\<rparr>)"
    and f: "\<forall>j. 0 \<le> j \<and> j \<le> 5 \<longrightarrow> text_field j item' =
        (if column ?i \<le> j then Some (toString \<lparr>toInt = 0, toUInt = 0, toString = ''Ann''\<rparr>)
         else text_field j (list ?m ! nat (row ?i)))"
    and lo: "location item' = truncate_lines (toString \<lparr>toInt = 0, toUInt = 0, toString = ''Ann''\<rparr>)"
    by blast
  have f3: "text_field 3 item' = Some []"
    using f[rule_format, of 3] by (simp add: l text_field_def new_TablePrintItem_def)
  have f4: "text_field 4 item' = Some ''Ann''"
    using f[rule_format, of 4] by simp
  have f5: "text_field 5 item' = Some ''Ann''"
    using f[rule_format, of 5] by simp
  show ?thesis
    using r f3 f4 f5 lo t by (intro exI[of _ item']) (simp add: l)
qed

section \<open>Properties of the profile print model\<close>

text \<open>
  C9. The claim: the alignment role gives right alignment exactly for the two header
  cells that hold the maximum depth and the duration. These are the cells of column 3
  in rows 0 and 1, and the code aligns them left; the test of line 1301 is for column
  4, whose cells in rows 0 and 1 are empty, and aligns those right.
\<close>

theorem alignment_of_depth_and_duration_cells:
  "ProfilePrintModel_display 0 3 = MaxDepth \<and>
   ProfilePrintModel_data \<lparr>row = 0, column = 3, has_model = True, internalPointer = 0\<rparr>
       TextAlignmentRole = CellAlignment AlignLeft \<and>
   ProfilePrintModel_display 1 3 = Duration \<and>
   ProfilePrintModel_data \<lparr>row = 1, column = 3, has_model = True, internalPointer = 0\<rparr>
       TextAlignmentRole = CellAlignment AlignLeft \<and>
   ProfilePrintModel_display 0 4 = EmptyCell \<and>
   ProfilePrintModel_data \<lparr>row = 0, column = 4, has_model = True, internalPointer = 0\<rparr>
       TextAlignmentRole = CellAlignment (AlignRight OR AlignVCenter) \<and>
   ProfilePrintModel_display 1 4 = EmptyCell \<and>
   ProfilePrintModel_data \<lparr>row = 1, column = 4, has_model = True, internalPointer = 0\<rparr>
       TextAlignmentRole = CellAlignment (AlignRight OR AlignVCenter) \<and>
   AlignRight OR AlignVCenter \<noteq> AlignLeft"
  by (simp add: ProfilePrintModel_display_def ProfilePrintModel_data_def role_defs
      AlignLeft_def AlignRight_def AlignVCenter_def)

section \<open>Properties of the yearly statistics model\<close>

lemmas stats_column_defs = YEAR_def DIVES_def TOTAL_TIME_def AVERAGE_TIME_def
  SHORTEST_TIME_def LONGEST_TIME_def AVG_DEPTH_def MIN_DEPTH_def MAX_DEPTH_def
  AVG_SAC_def MIN_SAC_def MAX_SAC_def AVG_TEMP_def MIN_TEMP_def MAX_TEMP_def

text \<open>
  C4. The claim: a display-role query of a cell whose denominator is zero returns no
  value instead of dividing. The average-temperature cell does so. The average-time
  cell does not: for every interval with a dive count of zero the query reaches the
  division of line 880.
\<close>

theorem average_time_divides_by_zero_count:
  "YearStatisticsItem_data H (st\<lparr>selection_size := 0\<rparr>) AVERAGE_TIME DisplayRole
     = Inl DivisionByZero \<and>
   YearStatisticsItem_data H (st\<lparr>combined_count := 0\<rparr>) AVG_TEMP DisplayRole = Inr NoValue"
  by (simp add: YearStatisticsItem_data_def role_defs stats_column_defs)

text \<open>
  The inner loop, from any accumulated count: it returns exactly when some number of
  buckets is taken in the sense of \<open>months_taken\<close>, and then the year node has got
  those buckets as further children, in order, and \<open>month\<close> has advanced by that
  number.
\<close>

lemma months_taken_0: "months_taken ms ysize c month 0 \<longleftrightarrow> \<not> c < ysize"
  by (simp add: months_taken_def month_count_def)

lemma months_taken_Suc:
  "months_taken ms ysize c month (Suc n) \<longleftrightarrow>
     c < ysize \<and> month < length ms \<and>
     months_taken ms ysize (c + selection_size (ms ! month)) (Suc month) n"
proof (cases "month < length ms")
  case False
  then show ?thesis by (simp add: months_taken_def)
next
  case True
  have dr: "drop month ms = ms ! month # drop (Suc month) ms"
    using True by (simp add: Cons_nth_drop_Suc)
  have a: "(\<forall>k<Suc n. c + month_count (take k (drop month ms)) < ysize)
      \<longleftrightarrow> c < ysize \<and>
          (\<forall>k<n. c + selection_size (ms ! month) + month_count (take k (drop (Suc month) ms)) < ysize)"
    by (simp add: dr month_count_def All_less_Suc2 add.assoc)
  have b: "c + month_count (take (Suc n) (drop month ms))
         = c + selection_size (ms ! month) + month_count (take n (drop (Suc month) ms))"
    by (simp add: dr month_count_def add.assoc)
  have c: "(Suc n = 0 \<or> month + Suc n \<le> length ms) \<longleftrightarrow> (n = 0 \<or> Suc month + n \<le> length ms)"
    using True by auto
  show ?thesis
    unfolding months_taken_def a b c using True by blast
qed

lemma month_loop_result:
  "month_loop (Array ms) ysize c month item = Inr (item', month') \<longleftrightarrow>
    (\<exists>n. months_taken ms ysize c month n \<and> month' = month + n \<and>
         item' = YearStatisticsItem (stats_interval item)
                   (stat_children item @ month_nodes (take n (drop month ms))))"
proof (induction "Array ms" ysize c month item arbitrary: rule: month_loop.induct)
  case (1 ysize c month item)
  show ?case (is "?L \<longleftrightarrow> (\<exists>n. ?R n)")
  proof (cases "c < ysize")
    case False
    have l: "?L \<longleftrightarrow> item' = item \<and> month' = month"
      using False by auto
    have r0: "?R 0 \<longleftrightarrow> item' = item \<and> month' = month"
      using False by (auto simp: months_taken_0 month_nodes_def)
    have rS: "\<not> ?R (Suc n)" for n
      using False by (simp add: months_taken_Suc)
    have "(\<exists>n. ?R n) \<longleftrightarrow> ?R 0"
    proof
      assume "\<exists>n. ?R n"
      then obtain n where n: "?R n" ..
      then show "?R 0" using rS by (cases n) blast+
    qed blast
    then show ?thesis using l r0 by simp
  next
    case True
    show ?thesis
    proof (cases "month < length ms")
      case False
      have l: "\<not> ?L" using True False by simp
      have "\<not> ?R n" for n
        using True False by (cases n) (simp_all add: months_taken_0 months_taken_Suc)
      then show ?thesis using l by blast
    next
      case inb: True
      let ?b = "ms ! month"
      let ?item1 = "append_child item (YearStatisticsItem ?b [])"
      let ?R1 = "\<lambda>n. months_taken ms ysize (c + selection_size ?b) (month + 1) n \<and>
          month' = month + 1 + n \<and>
          item' = YearStatisticsItem (stats_interval ?item1)
                   (stat_children ?item1 @ month_nodes (take n (drop (month + 1) ms)))"
      have step: "?L \<longleftrightarrow>
          month_loop (Array ms) ysize (c + selection_size ?b) (month + 1) ?item1 = Inr (item', month')"
        using True inb by simp
      have IH: "month_loop (Array ms) ysize (c + selection_size ?b) (month + 1) ?item1 = Inr (item', month')
          \<longleftrightarrow> (\<exists>n. ?R1 n)"
        using "1.hyps"[OF True, of ?b] inb by simp
      have dr: "drop month ms = ?b # drop (Suc month) ms"
        using inb by (simp add: Cons_nth_drop_Suc)
      have shift: "?R (Suc n) \<longleftrightarrow> ?R1 n" for n
        using True inb by (auto simp: months_taken_Suc dr month_nodes_def append_child_def)
      have zero: "\<not> ?R 0"
        using True by (simp add: months_taken_0)
      have "(\<exists>n. ?R n) \<longleftrightarrow> (\<exists>n. ?R1 n)"
      proof
        assume "\<exists>n. ?R n"
        then obtain n where n: "?R n" ..
        with zero obtain n' where "n = Suc n'" by (cases n) auto
        with n shift[of n'] show "\<exists>n. ?R1 n" by blast
      next
        assume "\<exists>n. ?R1 n"
        then obtain n where "?R1 n" ..
        with shift[of n] show "\<exists>n. ?R n" by blast
      qed
      then show ?thesis
        using step IH by simp
    qed
  qed
qed

text \<open>
  The outer loop: when it returns, it has met the entry of period zero after some
  number of years, and the nodes it has added to the root are a run over these years.
\<close>

lemma year_loop_result:
  "year_loop yearly (Array ms) i month root_children = Inr (root', month') \<Longrightarrow>
     \<exists>k nodes. i + k < length yearly \<and> period (yearly ! (i + k)) = 0 \<and>
        (\<forall>j<k. period (yearly ! (i + j)) \<noteq> 0) \<and>
        root' = root_children @ nodes \<and>
        years_run ms (take k (drop i yearly)) month nodes month'"
proof (induction yearly "Array ms" i month root_children rule: year_loop.induct)
  case (1 yearly i month root_children)
  note run = "1.prems"
  show ?case
  proof (cases "i < length yearly")
    case False
    then show ?thesis using run by simp
  next
    case inb: True
    let ?y = "yearly ! i"
    have rd: "read (Array yearly) i = Inr ?y" using inb by simp
    show ?thesis
    proof (cases "period ?y = 0")
      case True
      then have "root' = root_children" "month' = month"
        using run inb by simp_all
      then show ?thesis
        using True inb by (intro exI[of _ 0] exI[of _ "[]"]) simp
    next
      case False
      show ?thesis
      proof (cases "month_loop (Array ms) (selection_size ?y) 0 month (YearStatisticsItem ?y [])")
        case (Inl e)
        then show ?thesis using run inb False by simp
      next
        case (Inr p)
        obtain item m1 where p: "p = (item, m1)" by (cases p)
        have ml: "month_loop (Array ms) (selection_size ?y) 0 month (YearStatisticsItem ?y [])
                    = Inr (item, m1)"
          using Inr p by simp
        from ml obtain n where n: "months_taken ms (selection_size ?y) 0 month n"
          "m1 = month + n"
          "item = YearStatisticsItem ?y (month_nodes (take n (drop month ms)))"
          using month_loop_result[of ms "selection_size ?y" 0 month "YearStatisticsItem ?y []" item m1]
          by auto
        have next_run: "year_loop yearly (Array ms) (i + 1) m1 (root_children @ [item])
                          = Inr (root', month')"
          using run inb False ml by simp
        from "1.hyps"[OF rd False ml refl next_run]
        obtain k nodes where k: "i + 1 + k < length yearly" "period (yearly ! (i + 1 + k)) = 0"
          "\<forall>j<k. period (yearly ! (i + 1 + j)) \<noteq> 0"
          "root' = (root_children @ [item]) @ nodes"
          "years_run ms (take k (drop (i + 1) yearly)) m1 nodes month'"
          by blast
        have dr: "take (Suc k) (drop i yearly) = ?y # take k (drop (i + 1) yearly)"
          using inb by (simp add: Cons_nth_drop_Suc[symmetric])
        have nz: "\<forall>j<Suc k. period (yearly ! (i + j)) \<noteq> 0"
          using k(3) False by (auto simp: less_Suc_eq_0_disj)
        have yr: "years_run ms (take (Suc k) (drop i yearly)) month (item # nodes) month'"
          unfolding dr using n k(5) by auto
        show ?thesis
          using k(1,2,4) nz yr
          by (intro exI[of _ "Suc k"] exI[of _ "item # nodes"]) simp
      qed
    qed
  qed
qed

text \<open>
  C6. For each year node the inner loop starts with an accumulated count of zero at
  the current bucket. It returns with the node \<open>item'\<close> and the bucket index
  \<open>month'\<close> exactly when \<open>month'\<close> lies \<open>n\<close> buckets further, the children of
  \<open>item'\<close> are these \<open>n\<close> buckets in order, after each shorter run the accumulated
  count is below the year's dive count and after the \<open>n\<close> buckets it has reached it.
  When the loop over the years returns, every year up to the first entry of period
  zero has its node under the root, in order, each with the buckets taken in this
  way, the next year going on at the bucket where the year before has stopped.
  A year of 12 dives in front of twelve buckets of one dive each and a thirteenth
  bucket gets twelve children, and \<open>month\<close> ends at 12.
\<close>

theorem months_assigned_greedily:
  "(month_loop (Array ms) year_size 0 month (YearStatisticsItem year []) = Inr (item', month')
      \<longleftrightarrow> (\<exists>n. months_taken ms year_size 0 month n \<and> month' = month + n \<and>
               item' = YearStatisticsItem year (month_nodes (take n (drop month ms))))) \<and>
   (year_loop yearly (Array ms) i month root_children = Inr (root', month'') \<longrightarrow>
      (\<exists>k nodes. i + k < length yearly \<and> period (yearly ! (i + k)) = 0 \<and>
         (\<forall>j<k. period (yearly ! (i + j)) \<noteq> 0) \<and>
         root' = root_children @ nodes \<and>
         years_run ms (take k (drop i yearly)) month nodes month'')) \<and>
   update_yearly_stats (Array [interval 2014 12, interval 0 0])
       (Array (replicate 12 (interval 1 1) @ [interval 13 7])) NULL []
     = Inr ([YearStatisticsItem (interval 2014 12) (month_nodes (replicate 12 (interval 1 1)))], 12)"
proof (intro conjI impI)
  show "\<exists>k nodes. i + k < length yearly \<and> period (yearly ! (i + k)) = 0 \<and>
         (\<forall>j<k. period (yearly ! (i + j)) \<noteq> 0) \<and>
         root' = root_children @ nodes \<and>
         years_run ms (take k (drop i yearly)) month nodes month''"
    if "year_loop yearly (Array ms) i month root_children = Inr (root', month'')"
    using year_loop_result[OF that] .
  show "month_loop (Array ms) year_size 0 month (YearStatisticsItem year []) = Inr (item', month')
      \<longleftrightarrow> (\<exists>n. months_taken ms year_size 0 month n \<and> month' = month + n \<and>
               item' = YearStatisticsItem year (month_nodes (take n (drop month ms))))"
    using month_loop_result[of ms year_size 0 month "YearStatisticsItem year []" item' month']
    by simp
  show "update_yearly_stats (Array [interval 2014 12, interval 0 0])
       (Array (replicate 12 (interval 1 1) @ [interval 13 7])) NULL []
     = Inr ([YearStatisticsItem (interval 2014 12) (month_nodes (replicate 12 (interval 1 1)))], 12)"
    by code_simp
qed

theorem months_assigned_greedily_witness:
  "months_taken (replicate 12 (interval 1 1) @ [interval 13 7]) 12 0 0 12"
proof -
  let ?ms = "replicate 12 (interval 1 1) @ [interval 13 7]"
  let ?item' = "YearStatisticsItem (interval 2014 12) (month_nodes (replicate 12 (interval 1 1)))"
  have run: "month_loop (Array ?ms) 12 0 0 (YearStatisticsItem (interval 2014 12) [])
               = Inr (?item', 12)"
    by code_simp
  from months_assigned_greedily [THEN conjunct1,
      of ?ms 12 0 "interval 2014 12" ?item' 12] run
  obtain n where "months_taken ?ms 12 0 0 n" and "12 = 0 + n"
    by blast
  then show ?thesis by simp
qed

section \<open>Properties of the device list model\<close>

lemma set_QMultiMap_insert: "set (QMultiMap_insert k v es) = insert (k, v) (set es)"
  by (induction es) (auto split: if_splits)

lemma set_QMultiMap_remove: "set (QMultiMap_remove k v es) = set es - {(k, v)}"
  by (auto simp: QMultiMap_remove_def)

text \<open>
  C8, as stated, fails: a display-role \<open>setData\<close> on the model column is not
  rejected; it returns success and rewrites the nickname of the row.
\<close>

theorem DiveComputerModel_setData_ignores_column_and_role:
  "DiveComputerModel_setData
      \<lparr>dcWorkingMap = [(''Vyper'', \<lparr>model = ''Vyper'', deviceId = 0x1a2b, nickName = ''old''\<rparr>)],
       numRows = 1, dc_emitted = []\<rparr>
      \<lparr>row = 0, column = MODEL, has_model = True, internalPointer = 0\<rparr>
      \<lparr>toInt = 0, toUInt = 0, toString = ''new''\<rparr> DisplayRole
   = Inr (True,
      \<lparr>dcWorkingMap = [(''Vyper'', \<lparr>model = ''Vyper'', deviceId = 0x1a2b, nickName = ''new''\<rparr>)],
       numRows = 1,
       dc_emitted = [DataChanged \<lparr>row = 0, column = MODEL, has_model = True, internalPointer = 0\<rparr>
                                 \<lparr>row = 0, column = MODEL, has_model = True, internalPointer = 0\<rparr>]\<rparr>)"
  by (simp add: DiveComputerModel_setData_def at_def QMultiMap_values_def QMultiMap_remove_def)

text \<open>
  C8, amended. \<open>flags\<close> adds the editable flag for the nickname column and for no
  other. \<open>setData\<close> tests neither column nor role: every call for an existing row
  returns success, removes the row's entry under its model key and inserts it again
  under that key with the new nickname, emits one change notification for the single
  cell and no other signal, and leaves the row count as it was.
\<close>

theorem DiveComputerModel_setData_rewrites_nickname:
  assumes "0 \<le> row index" and "row index < int (length (dcWorkingMap m))"
  shows "\<exists>k node m'.
           dcWorkingMap m ! nat (row index) = (k, node) \<and>
           DiveComputerModel_setData m index val role = Inr (True, m') \<and>
           dcWorkingMap m' = QMultiMap_insert (model node) (node\<lparr>nickName := toString val\<rparr>)
                               (QMultiMap_remove (model node) node (dcWorkingMap m)) \<and>
           set (dcWorkingMap m') = insert (model node, node\<lparr>nickName := toString val\<rparr>)
                                     (set (dcWorkingMap m) - {(model node, node)}) \<and>
           dc_emitted m' = dc_emitted m @ [DataChanged index index] \<and>
           DiveComputerModel_rowCount m' = DiveComputerModel_rowCount m \<and>
           DiveComputerModel_flags base index
             = (if column index = NICKNAME then base OR ItemIsEditable else base)"
proof -
  obtain k node where kn: "dcWorkingMap m ! nat (row index) = (k, node)"
    by (cases "dcWorkingMap m ! nat (row index)") auto
  have a: "at (QMultiMap_values (dcWorkingMap m)) (row index) = Inr node"
    using assms kn by (simp add: at_def QMultiMap_values_def)
  let ?m' = "m\<lparr>dcWorkingMap := QMultiMap_insert (model node) (node\<lparr>nickName := toString val\<rparr>)
                               (QMultiMap_remove (model node) node (dcWorkingMap m)),
               dc_emitted := dc_emitted m @ [DataChanged index index]\<rparr>"
  have r: "DiveComputerModel_setData m index val role = Inr (True, ?m')"
    using a by (simp add: DiveComputerModel_setData_def Let_def)
  show ?thesis
    using kn r
    by (intro exI[of _ k] exI[of _ node] exI[of _ ?m'])
       (simp add: set_QMultiMap_insert set_QMultiMap_remove DiveComputerModel_rowCount_def
          DiveComputerModel_flags_def)
qed

theorem DiveComputerModel_setData_rewrites_nickname_witness:
  "\<exists>m'. DiveComputerModel_setData
      \<lparr>dcWorkingMap = [(''Vyper'', \<lparr>model = ''Vyper'', deviceId = 0x1a2b, nickName = ''old''\<rparr>)],
       numRows = 1, dc_emitted = []\<rparr>
      \<lparr>row = 0, column = NICKNAME, has_model = True, internalPointer = 0\<rparr>
      \<lparr>toInt = 0, toUInt = 0, toString = ''new''\<rparr> EditRole = Inr (True, m') \<and>
    dcWorkingMap m' = [(''Vyper'', \<lparr>model = ''Vyper'', deviceId = 0x1a2b, nickName = ''new''\<rparr>)] \<and>
    DiveComputerModel_rowCount m' = 1"
proof -
  let ?m = "\<lparr>dcWorkingMap = [(''Vyper'', \<lparr>model = ''Vyper'', deviceId = 0x1a2b, nickName = ''old''\<rparr>)],
       numRows = 1, dc_emitted = []\<rparr>"
  let ?i = "\<lparr>row = 0, column = NICKNAME, has_model = True, internalPointer = 0\<rparr>"
  have h1: "0 \<le> row ?i" by simp
  have h2: "row ?i < int (length (dcWorkingMap ?m))" by simp
  from DiveComputerModel_setData_rewrites_nickname [OF h1 h2,
      of "\<lparr>toInt = 0, toUInt = 0, toString = ''new''\<rparr>" EditRole]
  show ?thesis
    by (auto simp: QMultiMap_remove_def DiveComputerModel_rowCount_def)
qed

section \<open>Properties of the grouped dive list\<close>

lemma number_in_use_iff: "number_in_use v ds \<longleftrightarrow> v \<in> dive_number ` set ds"
  by (induction ds) auto

lemma get_dive_by_uniq_id_None: "get_dive_by_uniq_id ds ident = None \<longleftrightarrow> ident \<notin> dive_id ` set ds"
  by (induction ds) auto

lemma get_dive_by_uniq_id_Some:
  "get_dive_by_uniq_id ds ident = Some k \<Longrightarrow>
     k < length ds \<and> dive_id (ds ! k) = ident \<and> (\<forall>j<k. dive_id (ds ! j) \<noteq> ident)"
proof (induction ds arbitrary: k)
  case Nil
  then show ?case by simp
next
  case (Cons d ds)
  show ?case
  proof (cases "dive_id d = ident")
    case True
    with Cons.prems show ?thesis by simp
  next
    case False
    with Cons.prems obtain k' where k: "k = Suc k'" "get_dive_by_uniq_id ds ident = Some k'"
      by auto
    from Cons.IH[OF k(2)] False k(1) show ?thesis
      by (auto simp: less_Suc_eq_0_disj)
  qed
qed

text \<open>
  C1, as stated, fails: the loop over the table also meets the edited dive, so the
  number a dive already has is refused for that dive although no other dive uses it.
\<close>

theorem DiveItem_setData_refuses_own_number:
  "DiveItem_setData
      \<lparr>dives = [\<lparr>dive_id = 7, dive_number = 5, divetrip = None\<rparr>], preexisting = 1, changed = False\<rparr>
      7 \<lparr>row = 0, column = NR, has_model = True, internalPointer = 1\<rparr>
      \<lparr>toInt = 5, toUInt = 5, toString = ''5''\<rparr> EditRole
   = Inr (False,
      \<lparr>dives = [\<lparr>dive_id = 7, dive_number = 5, divetrip = None\<rparr>], preexisting = 1, changed = False\<rparr>)"
  by (simp add: DiveItem_setData_def)

text \<open>
  C1, amended. An edit with a role other than the edit role or on a column other than
  the number column fails, and so does an edit to zero or to a number that any dive of
  the store carries, the edited dive included; each failure leaves the store as it
  was. An edit-role write to the number column of a nonzero number that no dive of the
  store carries, for an item whose dive is in the store, succeeds: the first dive with
  the item's id gets the number, every other dive and every other field is unchanged,
  and the store is marked dirty.
\<close>

theorem DiveItem_setData_number:
  "(role \<noteq> EditRole \<or> column index \<noteq> NR \<longrightarrow>
      DiveItem_setData store diveId index val role = Inr (False, store)) \<and>
   (toInt val = 0 \<or> (\<exists>d \<in> set (dives store). dive_number d = toInt val) \<longrightarrow>
      DiveItem_setData store diveId index val role = Inr (False, store)) \<and>
   (role = EditRole \<and> column index = NR \<and> toInt val \<noteq> 0 \<and>
    (\<forall>d \<in> set (dives store). dive_number d \<noteq> toInt val) \<and>
    (\<exists>d \<in> set (dives store). dive_id d = diveId) \<longrightarrow>
      (\<exists>k store'. DiveItem_setData store diveId index val role = Inr (True, store') \<and>
         k < length (dives store) \<and> dive_id (dives store ! k) = diveId \<and>
         (\<forall>j<k. dive_id (dives store ! j) \<noteq> diveId) \<and>
         dives store' = (dives store)[k := (dives store ! k)\<lparr>dive_number := toInt val\<rparr>] \<and>
         changed store' \<and> preexisting store' = preexisting store))"
proof (intro conjI impI)
  assume "role \<noteq> EditRole \<or> column index \<noteq> NR"
  then show "DiveItem_setData store diveId index val role = Inr (False, store)"
    by (auto simp: DiveItem_setData_def)
next
  assume "toInt val = 0 \<or> (\<exists>d \<in> set (dives store). dive_number d = toInt val)"
  then show "DiveItem_setData store diveId index val role = Inr (False, store)"
    by (auto simp: DiveItem_setData_def Let_def number_in_use_iff image_iff)
next
  assume a: "role = EditRole \<and> column index = NR \<and> toInt val \<noteq> 0 \<and>
    (\<forall>d \<in> set (dives store). dive_number d \<noteq> toInt val) \<and>
    (\<exists>d \<in> set (dives store). dive_id d = diveId)"
  then have "get_dive_by_uniq_id (dives store) diveId \<noteq> None"
    by (auto simp: get_dive_by_uniq_id_None)
  then obtain k where k: "get_dive_by_uniq_id (dives store) diveId = Some k" by auto
  have free: "\<not> number_in_use (toInt val) (dives store)"
    using a by (auto simp: number_in_use_iff)
  have "DiveItem_setData store diveId index val role =
      Inr (True, mark_divelist_changed True
            (store\<lparr>dives := (dives store)[k := (dives store ! k)\<lparr>dive_number := toInt val\<rparr>]\<rparr>))"
    using a k free by (simp add: DiveItem_setData_def Let_def)
  with get_dive_by_uniq_id_Some[OF k]
  show "\<exists>k store'. DiveItem_setData store diveId index val role = Inr (True, store') \<and>
         k < length (dives store) \<and> dive_id (dives store ! k) = diveId \<and>
         (\<forall>j<k. dive_id (dives store ! j) \<noteq> diveId) \<and>
         dives store' = (dives store)[k := (dives store ! k)\<lparr>dive_number := toInt val\<rparr>] \<and>
         changed store' \<and> preexisting store' = preexisting store"
    by (intro exI[of _ k] exI[of _ "mark_divelist_changed True
            (store\<lparr>dives := (dives store)[k := (dives store ! k)\<lparr>dive_number := toInt val\<rparr>]\<rparr>)"])
       (simp add: mark_divelist_changed_def)
qed

theorem DiveItem_setData_number_witness:
  "\<exists>store'. DiveItem_setData
      \<lparr>dives = [\<lparr>dive_id = 7, dive_number = 5, divetrip = None\<rparr>,
                \<lparr>dive_id = 8, dive_number = 6, divetrip = None\<rparr>],
       preexisting = 2, changed = False\<rparr>
      8 \<lparr>row = 1, column = NR, has_model = True, internalPointer = 2\<rparr>
      \<lparr>toInt = 9, toUInt = 9, toString = ''9''\<rparr> EditRole = Inr (True, store') \<and>
    dives store' = [\<lparr>dive_id = 7, dive_number = 5, divetrip = None\<rparr>,
                    \<lparr>dive_id = 8, dive_number = 9, divetrip = None\<rparr>] \<and>
    changed store'"
proof -
  let ?store = "\<lparr>dives = [\<lparr>dive_id = 7, dive_number = 5, divetrip = None\<rparr>,
                \<lparr>dive_id = 8, dive_number = 6, divetrip = None\<rparr>],
       preexisting = 2, changed = False\<rparr>"
  let ?i = "\<lparr>row = 1, column = NR, has_model = True, internalPointer = 2\<rparr>"
  let ?v = "\<lparr>toInt = 9, toUInt = 9, toString = ''9''\<rparr>"
  have h: "EditRole = EditRole \<and> column ?i = NR \<and> toInt ?v \<noteq> 0 \<and>
    (\<forall>d \<in> set (dives ?store). dive_number d \<noteq> toInt ?v) \<and>
    (\<exists>d \<in> set (dives ?store). dive_id d = 8)"
    by simp
  from DiveItem_setData_number [of EditRole ?i ?store 8 ?v, THEN conjunct2, THEN conjunct2, rule_format, OF h]
  obtain k store' where r: "DiveItem_setData ?store 8 ?i ?v EditRole = Inr (True, store')"
    and k: "k < length (dives ?store)" "dive_id (dives ?store ! k) = 8"
    and d: "dives store' = (dives ?store)[k := (dives ?store ! k)\<lparr>dive_number := toInt ?v\<rparr>]"
    and c: "changed store'"
    by blast
  have "k = 1" using k by (cases k) auto
  then show ?thesis using r d c by (intro exI[of _ store']) simp
qed

text \<open>
  The loop of \<open>setupModelData\<close> runs the body over the dives in reverse store order.
\<close>

lemma dive_loop_fold:
  "n \<le> length ds \<Longrightarrow> dive_loop n ds m = Inr (fold loop_body (rev (take n ds)) m)"
proof (induction n arbitrary: m)
  case 0
  then show ?case by simp
next
  case (Suc n)
  then have lt: "n < length ds" by simp
  have "dive_loop (Suc n) ds m = dive_loop n ds (loop_body (ds ! n) m)"
    using lt by (simp add: get_dive_def)
  also have "\<dots> = Inr (fold loop_body (rev (take n ds)) (loop_body (ds ! n) m))"
    using Suc.IH lt by simp
  finally show ?case using lt by (simp add: take_Suc_conv_app_nth)
qed

lemma wf_TreeModel_new: "wf_model (TreeModel_new layout ag)"
  by (simp add: wf_model_def TreeModel_new_def)

lemma root_rows_TreeModel_new: "root_rows (TreeModel_new layout ag) = []"
  by (simp add: root_rows_def TreeModel_new_def)

text \<open>
  The body of the loop in its three cases, as one update of the model each.
\<close>

lemma loop_body_root:
  assumes "divetrip d = None \<or> currentLayout m = LIST" and "rootItem m \<noteq> next_item m"
  shows "loop_body d m =
     m\<lparr>items := (items m)
          (next_item m := \<lparr>item_class = DiveItem (dive_id d), parent = Some (rootItem m), children = []\<rparr>,
           rootItem m := (items m (rootItem m))\<lparr>children := children (items m (rootItem m)) @ [next_item m]\<rparr>),
       next_item := next_item m + 1\<rparr>"
  using assms by (auto simp: loop_body_def new_item_def set_parent_def push_back_def)

lemma loop_body_new_trip:
  assumes "divetrip d = Some t" and "currentLayout m = TREE" and "trips m t = None"
    and "rootItem m < next_item m"
  shows "loop_body d m =
     m\<lparr>items := (items m)
          (next_item m := \<lparr>item_class = DiveItem (dive_id d), parent = None, children = []\<rparr>,
           Suc (next_item m) := \<lparr>item_class = TripItem t, parent = Some (rootItem m), children = [next_item m]\<rparr>,
           rootItem m := (items m (rootItem m))\<lparr>children := children (items m (rootItem m)) @ [Suc (next_item m)]\<rparr>),
       next_item := next_item m + 2,
       trips := (trips m)(t \<mapsto> Suc (next_item m))\<rparr>"
  using assms by (auto simp: loop_body_def new_item_def set_parent_def push_back_def)

lemma loop_body_old_trip:
  assumes "divetrip d = Some t" and "currentLayout m = TREE" and "trips m t = Some a"
    and "a \<noteq> next_item m"
  shows "loop_body d m =
     m\<lparr>items := (items m)
          (next_item m := \<lparr>item_class = DiveItem (dive_id d), parent = None, children = []\<rparr>,
           a := (items m a)\<lparr>children := children (items m a) @ [next_item m]\<rparr>),
       next_item := next_item m + 1\<rparr>"
  using assms by (auto simp: loop_body_def new_item_def set_parent_def push_back_def)


lemma view_of_cong:
  assumes "items m' a = items m a"
    and "\<And>c. c \<in> set (children (items m a)) \<Longrightarrow> item_class (items m' c) = item_class (items m c)"
  shows "view_of m' a = view_of m a"
  using assms by (simp add: view_of_def)

lemma append_to_trip_None:
  "(\<forall>r\<in>set rs. case r of Row c kids \<Rightarrow> c \<noteq> TripItem t) \<Longrightarrow> append_to_trip t x rs = None"
proof (induction rs)
  case Nil
  then show ?case by simp
next
  case (Cons r rs)
  then show ?case by (cases r) auto
qed

lemma append_to_trip_Some:
  assumes "a \<in> set as" and "distinct as"
    and "\<And>b. b \<in> set as \<Longrightarrow> (case f b of Row c kids \<Rightarrow> c = TripItem t) \<Longrightarrow> b = a"
    and "f a = Row (TripItem t) kids"
  shows "append_to_trip t x (map f as)
           = Some (map (\<lambda>b. if b = a then Row (TripItem t) (kids @ [x]) else f b) as)"
  using assms(1,2,3)
proof (induction as)
  case Nil
  then show ?case by simp
next
  case (Cons b as)
  show ?case
  proof (cases "b = a")
    case True
    then have "a \<notin> set as" using Cons.prems(2) by simp
    then have "map (\<lambda>b. if b = a then Row (TripItem t) (kids @ [x]) else f b) as = map f as"
      by (intro map_cong) auto
    then show ?thesis using True assms(4) by simp
  next
    case False
    obtain c ks where fb: "f b = Row c ks" by (cases "f b")
    have "c \<noteq> TripItem t"
      using Cons.prems(3)[of b] False fb by auto
    moreover have "append_to_trip t x (map f as)
           = Some (map (\<lambda>b. if b = a then Row (TripItem t) (kids @ [x]) else f b) as)"
      using Cons.IH Cons.prems False by auto
    ultimately show ?thesis using False fb by simp
  qed
qed

lemma wf_modelD:
  assumes "wf_model m"
  shows "rootItem m < next_item m"
    and "distinct (children (items m (rootItem m)))"
    and "rootItem m \<notin> set (children (items m (rootItem m)))"
    and "\<And>a. a \<in> set (children (items m (rootItem m))) \<Longrightarrow> a < next_item m"
    and "\<And>a c. a \<in> set (children (items m (rootItem m))) \<Longrightarrow> c \<in> set (children (items m a))
           \<Longrightarrow> c < next_item m \<and> c \<notin> set (children (items m (rootItem m))) \<and> c \<noteq> rootItem m"
    and "\<And>t a. trips m t = Some a \<Longrightarrow>
           a \<in> set (children (items m (rootItem m))) \<and> item_class (items m a) = TripItem t"
    and "\<And>a t. a \<in> set (children (items m (rootItem m))) \<Longrightarrow> item_class (items m a) = TripItem t
           \<Longrightarrow> trips m t = Some a"
  using assms unfolding wf_model_def Let_def by blast+

lemma wf_modelI:
  assumes "rootItem m < next_item m"
    and "distinct (children (items m (rootItem m)))"
    and "rootItem m \<notin> set (children (items m (rootItem m)))"
    and "\<And>a. a \<in> set (children (items m (rootItem m))) \<Longrightarrow> a < next_item m"
    and "\<And>a c. a \<in> set (children (items m (rootItem m))) \<Longrightarrow> c \<in> set (children (items m a))
           \<Longrightarrow> c < next_item m \<and> c \<notin> set (children (items m (rootItem m))) \<and> c \<noteq> rootItem m"
    and "\<And>t a. trips m t = Some a \<Longrightarrow>
           a \<in> set (children (items m (rootItem m))) \<and> item_class (items m a) = TripItem t"
    and "\<And>a t. a \<in> set (children (items m (rootItem m))) \<Longrightarrow> item_class (items m a) = TripItem t
           \<Longrightarrow> trips m t = Some a"
  shows "wf_model m"
  using assms unfolding wf_model_def Let_def by blast

lemma step_root:
  assumes wf: "wf_model m" and d: "divetrip d = None"
  shows "wf_model (loop_body d m) \<and> root_rows (loop_body d m) = grouped_add d (root_rows m)
     \<and> currentLayout (loop_body d m) = currentLayout m"
proof -
  let ?r = "rootItem m" and ?n = "next_item m"
  let ?rc = "children (items m ?r)"
  let ?m' = "loop_body d m"
  note D = wf_modelD[OF wf]
  have rn: "?r \<noteq> ?n" using D(1) by simp
  note eq = loop_body_root[of d m, OF disjI1[OF d] rn]
  have r': "rootItem ?m' = ?r" and n': "next_item ?m' = Suc ?n" and t': "trips ?m' = trips m"
    and l': "currentLayout ?m' = currentLayout m"
    by (simp_all add: eq)
  have rc': "children (items ?m' ?r) = ?rc @ [?n]"
    by (simp add: eq)
  have inew: "items ?m' ?n = \<lparr>item_class = DiveItem (dive_id d), parent = Some ?r, children = []\<rparr>"
    using rn by (simp add: eq)
  have iold: "items ?m' x = items m x" if "x \<noteq> ?n" "x \<noteq> ?r" for x
    using that by (simp add: eq)
  have rcn: "a \<noteq> ?n \<and> a \<noteq> ?r" if "a \<in> set ?rc" for a
    using D(3) D(4)[OF that] that by auto
  have kids: "c \<noteq> ?n \<and> c \<noteq> ?r" if "a \<in> set ?rc" "c \<in> set (children (items m a))" for a c
    using D(5)[OF that] by auto
  have old: "view_of ?m' a = view_of m a" if "a \<in> set ?rc" for a
  proof (rule view_of_cong)
    show "items ?m' a = items m a" using rcn[OF that] by (simp add: iold)
    show "item_class (items ?m' c) = item_class (items m c)"
      if "c \<in> set (children (items m a))" for c
      using kids[OF \<open>a \<in> set ?rc\<close> that] by (simp add: iold)
  qed
  have new: "view_of ?m' ?n = Row (DiveItem (dive_id d)) []"
    by (simp add: view_of_def inew)
  have rows: "root_rows ?m' = root_rows m @ [Row (DiveItem (dive_id d)) []]"
    using old new by (simp add: root_rows_def r' rc')
  have "wf_model ?m'"
  proof (rule wf_modelI; (unfold r' n' t' rc')?)
    show "?r < Suc ?n" using D(1) by simp
    show "distinct (?rc @ [?n])" using D(2) rcn by auto
    show "?r \<notin> set (?rc @ [?n])" using D(3) rn by simp
    show "a < Suc ?n" if "a \<in> set (?rc @ [?n])" for a
      using that D(4)[of a] by auto
    show "c < Suc ?n \<and> c \<notin> set (?rc @ [?n]) \<and> c \<noteq> ?r"
      if "a \<in> set (?rc @ [?n])" "c \<in> set (children (items ?m' a))" for a c
    proof (cases "a = ?n")
      case True
      then show ?thesis using that(2) by (simp add: inew)
    next
      case False
      then have a: "a \<in> set ?rc" using that(1) by simp
      then have "c \<in> set (children (items m a))"
        using that(2) rcn[OF a] by (simp add: iold)
      from D(5)[OF a this] show ?thesis by auto
    qed
    show "a \<in> set (?rc @ [?n]) \<and> item_class (items ?m' a) = TripItem t"
      if "trips m t = Some a" for t a
      using D(6)[OF that] rcn[of a] by (simp add: iold)
    show "trips m t = Some a"
      if "a \<in> set (?rc @ [?n])" "item_class (items ?m' a) = TripItem t" for a t
    proof (cases "a = ?n")
      case True
      then show ?thesis using that(2) by (simp add: inew)
    next
      case False
      then have a: "a \<in> set ?rc" using that(1) by simp
      then show ?thesis using that(2) rcn[OF a] D(7)[OF a, of t] by (simp add: iold)
    qed
  qed
  then show ?thesis using rows d l' by (simp add: grouped_add_def)
qed


lemma step_new_trip:
  assumes wf: "wf_model m" and d: "divetrip d = Some t" and lay: "currentLayout m = TREE"
    and tr: "trips m t = None"
  shows "wf_model (loop_body d m) \<and> root_rows (loop_body d m) = grouped_add d (root_rows m)
     \<and> currentLayout (loop_body d m) = currentLayout m"
proof -
  let ?r = "rootItem m" and ?n = "next_item m"
  let ?rc = "children (items m ?r)"
  let ?m' = "loop_body d m"
  note D = wf_modelD[OF wf]
  have rn: "?r \<noteq> ?n" "?r \<noteq> Suc ?n" using D(1) by simp_all
  note eq = loop_body_new_trip[of d t m, OF d lay tr D(1)]
  have r': "rootItem ?m' = ?r" and n': "next_item ?m' = Suc (Suc ?n)"
    and t': "trips ?m' = (trips m)(t \<mapsto> Suc ?n)"
    and l': "currentLayout ?m' = currentLayout m"
    by (simp_all add: eq)
  have rc': "children (items ?m' ?r) = ?rc @ [Suc ?n]"
    by (simp add: eq)
  have idive: "items ?m' ?n = \<lparr>item_class = DiveItem (dive_id d), parent = None, children = []\<rparr>"
    using rn by (simp add: eq)
  have itrip: "items ?m' (Suc ?n) = \<lparr>item_class = TripItem t, parent = Some ?r, children = [?n]\<rparr>"
    using rn by (simp add: eq)
  have iold: "items ?m' x = items m x" if "x \<noteq> ?n" "x \<noteq> Suc ?n" "x \<noteq> ?r" for x
    using that by (simp add: eq)
  have rcn: "a \<noteq> ?n \<and> a \<noteq> Suc ?n \<and> a \<noteq> ?r" if "a \<in> set ?rc" for a
    using D(3) D(4)[OF that] that by auto
  have kids: "c \<noteq> ?n \<and> c \<noteq> Suc ?n \<and> c \<noteq> ?r"
    if "a \<in> set ?rc" "c \<in> set (children (items m a))" for a c
    using D(5)[OF that] by auto
  have old: "view_of ?m' a = view_of m a" if "a \<in> set ?rc" for a
  proof (rule view_of_cong)
    show "items ?m' a = items m a" using rcn[OF that] by (simp add: iold)
    show "item_class (items ?m' c) = item_class (items m c)"
      if "c \<in> set (children (items m a))" for c
      using kids[OF \<open>a \<in> set ?rc\<close> that] by (simp add: iold)
  qed
  have new: "view_of ?m' (Suc ?n) = Row (TripItem t) [DiveItem (dive_id d)]"
    by (simp add: view_of_def itrip idive)
  have rows: "root_rows ?m' = root_rows m @ [Row (TripItem t) [DiveItem (dive_id d)]]"
    using old new by (simp add: root_rows_def r' rc')
  have none: "append_to_trip t (DiveItem (dive_id d)) (root_rows m) = None"
  proof (rule append_to_trip_None, rule ballI)
    fix row assume "row \<in> set (root_rows m)"
    then obtain a where a: "a \<in> set ?rc" and row: "row = view_of m a"
      by (auto simp: root_rows_def)
    have "item_class (items m a) \<noteq> TripItem t"
      using D(7)[OF a, of t] tr by auto
    then show "case row of Row c kids \<Rightarrow> c \<noteq> TripItem t"
      by (simp add: row view_of_def)
  qed
  have "wf_model ?m'"
  proof (rule wf_modelI; (unfold r' n' t' rc')?)
    show "?r < Suc (Suc ?n)" using D(1) by simp
    show "distinct (?rc @ [Suc ?n])" using D(2) rcn by auto
    show "?r \<notin> set (?rc @ [Suc ?n])" using D(3) rn by simp
    show "a < Suc (Suc ?n)" if "a \<in> set (?rc @ [Suc ?n])" for a
      using that D(4)[of a] by auto
    show "c < Suc (Suc ?n) \<and> c \<notin> set (?rc @ [Suc ?n]) \<and> c \<noteq> ?r"
      if "a \<in> set (?rc @ [Suc ?n])" "c \<in> set (children (items ?m' a))" for a c
    proof (cases "a = Suc ?n")
      case True
      then have "c = ?n" using that(2) by (simp add: itrip)
      then show ?thesis using rn rcn[of ?n] by auto
    next
      case False
      then have a: "a \<in> set ?rc" using that(1) by simp
      then have "c \<in> set (children (items m a))"
        using that(2) rcn[OF a] by (simp add: iold)
      from D(5)[OF a this] show ?thesis by auto
    qed
    show "a \<in> set (?rc @ [Suc ?n]) \<and> item_class (items ?m' a) = TripItem t'"
      if "((trips m)(t \<mapsto> Suc ?n)) t' = Some a" for t' a
    proof (cases "t' = t")
      case True
      then have "a = Suc ?n" using that by simp
      then show ?thesis using True itrip by simp
    next
      case False
      then have "trips m t' = Some a" using that by simp
      from D(6)[OF this] show ?thesis using rcn[of a] by (simp add: iold)
    qed
    show "((trips m)(t \<mapsto> Suc ?n)) t' = Some a"
      if "a \<in> set (?rc @ [Suc ?n])" "item_class (items ?m' a) = TripItem t'" for a t'
    proof (cases "a = Suc ?n")
      case True
      then show ?thesis using that(2) by (simp add: itrip)
    next
      case False
      then have a: "a \<in> set ?rc" using that(1) by simp
      then have c: "item_class (items m a) = TripItem t'"
        using that(2) rcn[OF a] by (simp add: iold)
      from D(7)[OF a c] have "trips m t' = Some a" .
      moreover from this tr have "t' \<noteq> t" by auto
      ultimately show ?thesis by simp
    qed
  qed
  then show ?thesis using rows d l' none by (simp add: grouped_add_def)
qed

lemma step_old_trip:
  assumes wf: "wf_model m" and d: "divetrip d = Some t" and lay: "currentLayout m = TREE"
    and tr: "trips m t = Some a"
  shows "wf_model (loop_body d m) \<and> root_rows (loop_body d m) = grouped_add d (root_rows m)
     \<and> currentLayout (loop_body d m) = currentLayout m"
proof -
  let ?r = "rootItem m" and ?n = "next_item m"
  let ?rc = "children (items m ?r)"
  let ?m' = "loop_body d m"
  let ?x = "DiveItem (dive_id d)"
  note D = wf_modelD[OF wf]
  have a: "a \<in> set ?rc" and ca: "item_class (items m a) = TripItem t"
    using D(6)[OF tr] by simp_all
  have an: "a \<noteq> ?n" and ar: "a \<noteq> ?r" using D(4)[OF a] D(3) a by auto
  have rn: "?r \<noteq> ?n" using D(1) by simp
  note eq = loop_body_old_trip[of d t m, OF d lay tr an]
  have r': "rootItem ?m' = ?r" and n': "next_item ?m' = Suc ?n"
    and t': "trips ?m' = trips m"
    and l': "currentLayout ?m' = currentLayout m"
    by (simp_all add: eq)
  have rc': "children (items ?m' ?r) = ?rc"
    using ar rn by (simp add: eq)
  have idive: "items ?m' ?n = \<lparr>item_class = DiveItem (dive_id d), parent = None, children = []\<rparr>"
    using an by (simp add: eq)
  have itrip: "items ?m' a = (items m a)\<lparr>children := children (items m a) @ [?n]\<rparr>"
    by (simp add: eq)
  have iold: "items ?m' x = items m x" if "x \<noteq> ?n" "x \<noteq> a" for x
    using that by (simp add: eq)
  have rcn: "b \<noteq> ?n \<and> b \<noteq> ?r" if "b \<in> set ?rc" for b
    using D(3) D(4)[OF that] that by auto
  have kids: "c \<noteq> ?n \<and> c \<noteq> a \<and> c \<noteq> ?r"
    if "b \<in> set ?rc" "c \<in> set (children (items m b))" for b c
    using D(5)[OF that] a by auto
  have old: "view_of ?m' b = view_of m b" if "b \<in> set ?rc" "b \<noteq> a" for b
  proof (rule view_of_cong)
    show "items ?m' b = items m b" using rcn[OF that(1)] that(2) by (simp add: iold)
    show "item_class (items ?m' c) = item_class (items m c)"
      if "c \<in> set (children (items m b))" for c
      using kids[OF \<open>b \<in> set ?rc\<close> that] by (simp add: iold)
  qed
  let ?kids = "map (\<lambda>c. item_class (items m c)) (children (items m a))"
  have va: "view_of m a = Row (TripItem t) ?kids"
    by (simp add: view_of_def ca)
  have "map (\<lambda>c. item_class (items ?m' c)) (children (items m a)) = ?kids"
    by (rule map_cong[OF refl]) (use kids[OF a] in \<open>simp add: iold\<close>)
  then have new: "view_of ?m' a = Row (TripItem t) (?kids @ [?x])"
    by (simp add: view_of_def itrip idive ca)
  have rows: "root_rows ?m' = map (\<lambda>b. if b = a then Row (TripItem t) (?kids @ [?x]) else view_of m b) ?rc"
    unfolding root_rows_def r' rc'
    by (rule map_cong[OF refl]) (use old new in auto)
  have some: "append_to_trip t ?x (root_rows m)
      = Some (map (\<lambda>b. if b = a then Row (TripItem t) (?kids @ [?x]) else view_of m b) ?rc)"
    unfolding root_rows_def
  proof (rule append_to_trip_Some[where f = "view_of m" and a = a, OF a D(2) _ va])
    fix b assume b: "b \<in> set ?rc" and "case view_of m b of Row c kids \<Rightarrow> c = TripItem t"
    then have "item_class (items m b) = TripItem t" by (simp add: view_of_def)
    from D(7)[OF b this] tr show "b = a" by simp
  qed
  have "wf_model ?m'"
  proof (rule wf_modelI; (unfold r' n' t' rc')?)
    show "?r < Suc ?n" using D(1) by simp
    show "distinct ?rc" by (rule D(2))
    show "?r \<notin> set ?rc" by (rule D(3))
    show "b < Suc ?n" if "b \<in> set ?rc" for b
      using D(4)[OF that] by simp
    show "c < Suc ?n \<and> c \<notin> set ?rc \<and> c \<noteq> ?r"
      if "b \<in> set ?rc" "c \<in> set (children (items ?m' b))" for b c
    proof (cases "b = a")
      case True
      then have "c \<in> set (children (items m a)) \<or> c = ?n"
        using that(2) by (auto simp: itrip)
      then show ?thesis
        using D(5)[OF a, of c] rcn[of ?n] rn by auto
    next
      case False
      then have "c \<in> set (children (items m b))"
        using that rcn[OF that(1)] by (simp add: iold)
      from D(5)[OF that(1) this] show ?thesis by auto
    qed
    show "b \<in> set ?rc \<and> item_class (items ?m' b) = TripItem t'"
      if "trips m t' = Some b" for t' b
    proof (cases "b = a")
      case True
      then show ?thesis using D(6)[OF that] by (simp add: itrip)
    next
      case False
      then show ?thesis using D(6)[OF that] rcn[of b] by (simp add: iold)
    qed
    show "trips m t' = Some b"
      if "b \<in> set ?rc" "item_class (items ?m' b) = TripItem t'" for b t'
    proof (cases "b = a")
      case True
      then have "item_class (items m b) = TripItem t'" using that(2) by (simp add: itrip)
      from D(7)[OF that(1) this] show ?thesis .
    next
      case False
      then have "item_class (items m b) = TripItem t'"
        using that rcn[OF that(1)] by (simp add: iold)
      from D(7)[OF that(1) this] show ?thesis .
    qed
  qed
  then show ?thesis using rows d l' some by (simp add: grouped_add_def)
qed

lemma step_TREE:
  assumes "wf_model m" and "currentLayout m = TREE"
  shows "wf_model (loop_body d m) \<and> root_rows (loop_body d m) = grouped_add d (root_rows m)
     \<and> currentLayout (loop_body d m) = TREE"
proof (cases "divetrip d")
  case None
  from step_root[OF assms(1) None] assms(2) show ?thesis by simp
next
  case (Some t)
  show ?thesis
  proof (cases "trips m t")
    case None
    from step_new_trip[OF assms(1) Some assms(2) None] assms(2) show ?thesis by simp
  next
    case (Some a)
    from step_old_trip[OF assms(1) \<open>divetrip d = Some t\<close> assms(2) Some] assms(2)
    show ?thesis by simp
  qed
qed

lemma fold_loop_body_TREE:
  assumes "wf_model m" and "currentLayout m = TREE"
  shows "wf_model (fold loop_body ds m) \<and>
         root_rows (fold loop_body ds m) = fold grouped_add ds (root_rows m) \<and>
         currentLayout (fold loop_body ds m) = TREE"
  using assms
proof (induction ds arbitrary: m)
  case Nil
  then show ?case by simp
next
  case (Cons d ds)
  from step_TREE[OF Cons.prems, of d] Cons.IH[of "loop_body d m"]
  show ?case by simp
qed

lemma wf_model_emit: "wf_model (emit sigs m) = wf_model m"
  by (simp add: wf_model_def emit_def)

lemma root_rows_emit: "root_rows (emit sigs m) = root_rows m"
  by (simp add: emit_def root_rows_def view_of_def)

text \<open>
  A rebuild in the grouped layout, without automatic grouping, from any well-formed
  model: it returns, and the rows under the root are the earlier rows with the dives
  of the store grouped onto them.
\<close>

lemma emit_fields:
  "currentLayout (emit sigs m) = currentLayout m" "autogroup (emit sigs m) = autogroup m"
  by (simp_all add: emit_def)

lemma autogroup_fold_loop_body: "autogroup (fold loop_body ds m) = autogroup m"
proof (induction ds arbitrary: m)
  case Nil
  then show ?case by simp
next
  case (Cons d ds)
  have "autogroup (loop_body d m) = autogroup m"
    by (simp add: loop_body_def new_item_def set_parent_def push_back_def Let_def
        split: option.splits)
  with Cons.IH[of "loop_body d m"] show ?case by simp
qed

lemma setupModelData_rows:
  assumes wf: "wf_model m" and lay: "currentLayout m = TREE" and ag: "\<not> autogroup m"
  shows "\<exists>m'. setupModelData autogroup_dives (m, store)
                = Inr (m', store\<lparr>preexisting := int (length (dives store))\<rparr>) \<and>
              wf_model m' \<and> currentLayout m' = TREE \<and> \<not> autogroup m' \<and>
              root_rows m' = fold grouped_add (rev (dives store)) (root_rows m)"
proof -
  define m1 where "m1 = (if rowCount m \<noteq> 0
             then emit [BeginRemoveRows 0 (rowCount m - 1), EndRemoveRows] m else m)"
  define m2 where "m2 = fold loop_body (rev (dives store)) m1"
  define m3 where "m3 = (if rowCount m2 \<noteq> 0
             then emit [BeginInsertRows 0 (rowCount m2 - 1), EndInsertRows] m2 else m2)"
  have m1: "wf_model m1" "currentLayout m1 = TREE" "\<not> autogroup m1"
    "root_rows m1 = root_rows m"
    using wf lay ag by (simp_all add: m1_def wf_model_emit root_rows_emit emit_fields)
  have loop: "dive_loop (length (dives store)) (dives store) m1 = Inr m2"
    using dive_loop_fold[of "length (dives store)" "dives store" m1] by (simp add: m2_def)
  have m2: "wf_model m2" "currentLayout m2 = TREE"
    "root_rows m2 = fold grouped_add (rev (dives store)) (root_rows m)"
    using fold_loop_body_TREE[OF m1(1,2), of "rev (dives store)"] m1(4)
    by (simp_all add: m2_def)
  have ag2: "\<not> autogroup m2"
    using m1(3) by (simp add: m2_def autogroup_fold_loop_body)
  have r: "setupModelData autogroup_dives (m, store)
             = Inr (m3, store\<lparr>preexisting := int (length (dives store))\<rparr>)"
    using m1(3) loop unfolding setupModelData_def Let_def m1_def [symmetric] fst_conv snd_conv
    by (simp add: m3_def)
  have m3: "wf_model m3" "currentLayout m3 = TREE" "\<not> autogroup m3"
    "root_rows m3 = fold grouped_add (rev (dives store)) (root_rows m)"
    using m2 ag2 by (simp_all add: m3_def wf_model_emit root_rows_emit emit_fields)
  show ?thesis
    using r m3 by blast
qed

text \<open>
  C2. The claim: a rebuild first removes every earlier row, so that afterwards the
  children of the root are exactly the nodes built from the current dives. The code
  emits the remove bracket and removes nothing between its two halves: after a second
  \<open>setupModelData\<close> over a store of one dive the row of the first build is still
  there, in front of the new one, and the insert bracket announces two rows.
\<close>

theorem setupModelData_keeps_earlier_rows:
  "\<exists>m1 s1 m2 s2.
     setupModelData autogroup_dives (TreeModel_new TREE False,
        \<lparr>dives = [\<lparr>dive_id = 1, dive_number = 1, divetrip = None\<rparr>],
         preexisting = 0, changed = False\<rparr>) = Inr (m1, s1) \<and>
     dives s1 = [\<lparr>dive_id = 1, dive_number = 1, divetrip = None\<rparr>] \<and>
     root_rows m1 = [Row (DiveItem 1) []] \<and>
     setupModelData autogroup_dives (m1, s1) = Inr (m2, s2) \<and>
     dives s2 = [\<lparr>dive_id = 1, dive_number = 1, divetrip = None\<rparr>] \<and>
     root_rows m2 = [Row (DiveItem 1) [], Row (DiveItem 1) []] \<and>
     emitted m2 = [BeginInsertRows 0 0, EndInsertRows, BeginRemoveRows 0 0, EndRemoveRows,
                   BeginInsertRows 0 1, EndInsertRows]"
  by (simp add: setupModelData_def TreeModel_new_def rowCount_def get_dive_def loop_body_def
      new_item_def push_back_def set_parent_def emit_def root_rows_def view_of_def Let_def)

text \<open>
  C5. On a newly constructed model in the grouped layout, \<open>setupModelData\<close> returns,
  and the rows under the root are the grouping of the specification: the dives in
  reverse store order, a dive without trip as a root-level row, the first dive of a
  trip as a new trip row at the end, a later dive of that trip appended to the trip's
  row. For the store order d1 (trip 1), d2 (trip 1), d3 (no trip), d4 (trip 2) the
  rows are trip 2 with d4, then d3, then trip 1 with d2 and d1.
\<close>

theorem setupModelData_groups_by_trip:
  "(\<exists>m'. setupModelData autogroup_dives (TreeModel_new TREE False, store)
            = Inr (m', store\<lparr>preexisting := int (length (dives store))\<rparr>) \<and>
          root_rows m' = grouped_rows (dives store)) \<and>
   (\<exists>m' store'.
      setupModelData autogroup_dives (TreeModel_new TREE False,
        \<lparr>dives = [\<lparr>dive_id = 1, dive_number = 1, divetrip = Some 1\<rparr>,
                  \<lparr>dive_id = 2, dive_number = 2, divetrip = Some 1\<rparr>,
                  \<lparr>dive_id = 3, dive_number = 3, divetrip = None\<rparr>,
                  \<lparr>dive_id = 4, dive_number = 4, divetrip = Some 2\<rparr>],
         preexisting = 0, changed = False\<rparr>) = Inr (m', store') \<and>
      root_rows m' = [Row (TripItem 2) [DiveItem 4], Row (DiveItem 3) [],
                      Row (TripItem 1) [DiveItem 2, DiveItem 1]])"
proof -
  have general: "\<exists>m'. setupModelData autogroup_dives (TreeModel_new TREE False, store)
            = Inr (m', store\<lparr>preexisting := int (length (dives store))\<rparr>) \<and>
          root_rows m' = grouped_rows (dives store)" for store
  proof -
    have "currentLayout (TreeModel_new TREE False) = TREE"
      and "\<not> autogroup (TreeModel_new TREE False)"
      by (simp_all add: TreeModel_new_def)
    from setupModelData_rows[OF wf_TreeModel_new this, of autogroup_dives store]
    show ?thesis
      by (auto simp: grouped_rows_def root_rows_TreeModel_new)
  qed
  let ?store = "\<lparr>dives = [\<lparr>dive_id = 1, dive_number = 1, divetrip = Some 1\<rparr>,
                  \<lparr>dive_id = 2, dive_number = 2, divetrip = Some 1\<rparr>,
                  \<lparr>dive_id = 3, dive_number = 3, divetrip = None\<rparr>,
                  \<lparr>dive_id = 4, dive_number = 4, divetrip = Some 2\<rparr>],
         preexisting = 0, changed = False\<rparr>"
  have g: "grouped_rows (dives ?store)
      = [Row (TripItem 2) [DiveItem 4], Row (DiveItem 3) [],
         Row (TripItem 1) [DiveItem 2, DiveItem 1]]"
    by (simp add: grouped_rows_def grouped_add_def)
  from general[of ?store] g
  have "\<exists>m' store'. setupModelData autogroup_dives (TreeModel_new TREE False, ?store)
            = Inr (m', store') \<and>
      root_rows m' = [Row (TripItem 2) [DiveItem 4], Row (DiveItem 3) [],
                      Row (TripItem 1) [DiveItem 2, DiveItem 1]]"
    by auto
  with general[of store] show ?thesis by blast
qed

end
